theory Spec2Isabelle
  imports Complex_Main
begin

section \<open>Pseudo positioners (ophyd/pseudopos.py): a shallow embedding\<close>

text \<open>
  The theory follows \<^verbatim>\<open>src/ophyd/pseudopos.py\<close>. Python objects become values,
  exceptions become the left summand of a sum type, and every attribute the code mutates
  is a field of a state record that the functions take and give back.
\<close>

subsection \<open>Python values and the exceptions of the module\<close>

text \<open>
  The values that reach \<^verbatim>\<open>to_position_tuple\<close>: \<^verbatim>\<open>None\<close>, booleans, numbers,
  strings, plain sequences (list, tuple) and instances of a namedtuple class. An instance
  carries its class: the class name and the field names.
\<close>

datatype pyval =
    PNone
  | PBool bool
  | PNum real
  | PStr string
  | PSeq "pyval list"
  | PTuple string "string list" "pyval list"

text \<open>
  The \<^verbatim>\<open>cls\<close> argument: a class made by \<^verbatim>\<open>namedtuple(name, fields)\<close>, or any
  other class, which has no \<^verbatim>\<open>_fields\<close>.
\<close>

datatype pycls =
    NamedTuple string "string list"
  | PlainClass string

text \<open>
  An exception raised by a collaborator (a real positioner, or the \<^verbatim>\<open>forward\<close> and
  \<^verbatim>\<open>inverse\<close> of the subclass) is opaque to this module, but for one thing the
  module asks of it: whether it is an instance of DisconnectedError, which
  \<^verbatim>\<open>except DisconnectedError\<close> catches. Any other exception is known by a
  description. Such an exception travels as \<open>Raised\<close>; the other constructors of
  \<open>error\<close> are the exceptions the module raises itself.
\<close>

datatype exn = ExnDisconnected | Exn string

datatype error =
    InvalidPositionTuple
  | ArityError nat nat
  | MultiplePositional
  | WrongNumberOfArguments nat nat
  | UsageError
  | MissingKeywords "string list"
  | KeyError string
  | IndexError
  | NotAllRequiredValues
  | OutsidePseudoLimits string real real real
  | DisconnectedError
  | Raised exn

subsection \<open>\<^verbatim>\<open>to_position_tuple\<close> (lines 195--286)\<close>

text \<open>\<^verbatim>\<open>isinstance(v, cls)\<close> for a namedtuple class.\<close>

fun isinstance_cls :: "pyval \<Rightarrow> pycls \<Rightarrow> bool" where
  "isinstance_cls (PTuple n fs vs) (NamedTuple n' fs') = (n = n' \<and> fs = fs')"
| "isinstance_cls v c = False"

text \<open>\<^verbatim>\<open>isinstance(v, Sequence)\<close>: strings, lists and tuples (a namedtuple is a tuple).\<close>

fun isinstance_Sequence :: "pyval \<Rightarrow> bool" where
  "isinstance_Sequence (PStr s) = True"
| "isinstance_Sequence (PSeq xs) = True"
| "isinstance_Sequence (PTuple n fs vs) = True"
| "isinstance_Sequence v = False"

text \<open>The items \<^verbatim>\<open>*position\<close> unpacks.\<close>

fun seq_items :: "pyval \<Rightarrow> pyval list" where
  "seq_items (PStr s) = map (\<lambda>c. PStr [c]) s"
| "seq_items (PSeq xs) = xs"
| "seq_items (PTuple n fs vs) = vs"
| "seq_items v = []"

text \<open>\<^verbatim>\<open>cls(*xs)\<close>: the namedtuple constructor raises TypeError on a wrong arity.\<close>

definition construct :: "string \<Rightarrow> string list \<Rightarrow> pyval list \<Rightarrow> error + pyval" where
  "construct n fs xs =
     (if length xs = length fs then Inr (PTuple n fs xs)
      else Inl (ArityError (length fs) (length xs)))"

text \<open>
  \<^verbatim>\<open>{field: kwargs[field] for field in fields}\<close>: keyword arguments are kept as an
  association list in the order given; a missing key raises KeyError.
\<close>

fun getitems :: "(string \<times> pyval) list \<Rightarrow> string list \<Rightarrow> error + pyval list" where
  "getitems kwargs [] = Inr []"
| "getitems kwargs (f # fs) =
     (case map_of kwargs f of
        None \<Rightarrow> Inl (KeyError f)
      | Some v \<Rightarrow> (case getitems kwargs fs of Inl e \<Rightarrow> Inl e | Inr vs \<Rightarrow> Inr (v # vs)))"

definition to_position_tuple ::
  "pycls \<Rightarrow> pyval list \<Rightarrow> (string \<times> pyval) list \<Rightarrow> error + (pyval \<times> (string \<times> pyval) list)"
where
  "to_position_tuple cls args kwargs =
     (case cls of
        PlainClass n \<Rightarrow> Inl InvalidPositionTuple
      | NamedTuple n fields \<Rightarrow>
          if fields = [] then Inl InvalidPositionTuple
          else if args \<noteq> [] \<and> (isinstance_cls (hd args) cls \<or> isinstance_Sequence (hd args)) then
            (if length args > 1 then Inl MultiplePositional
             else
               (let position = hd args in
                if \<not> isinstance_cls position cls then
                  (case construct n fields (seq_items position) of
                     Inl e \<Rightarrow> Inl e
                   | Inr p \<Rightarrow> Inr (p, kwargs))
                else Inr (position, kwargs)))
          else if length args = length fields then
            (case construct n fields args of
               Inl e \<Rightarrow> Inl e
             | Inr p \<Rightarrow> Inr (p, kwargs))
          else if length args > 0 then
            Inl (WrongNumberOfArguments (length args) (length fields))
          else if kwargs = [] then Inl UsageError
          else
            (let missing_fields = filter (\<lambda>field. field \<notin> fst ` set kwargs) fields in
             if missing_fields \<noteq> [] then Inl (MissingKeywords missing_fields)
             else
               (case getitems kwargs fields of
                  Inl e \<Rightarrow> Inl e
                | Inr position_kw \<Rightarrow>
                    Inr (PTuple n fields position_kw,
                         filter (\<lambda>(key, v). key \<notin> set fields) kwargs))))"

subsection \<open>The state of a PseudoPositioner and its collaborators\<close>

text \<open>A real positioner is known by its name; object identity is name equality.\<close>

type_synonym axis = string

text \<open>
  A \<^verbatim>\<open>PseudoSingle\<close>: its name, its limit pair, \<^verbatim>\<open>_target\<close> (None until a move
  is commanded, and again after \<^verbatim>\<open>sync\<close>) and \<^verbatim>\<open>_idx\<close>, its slot in the
  pseudo position.
\<close>

record PseudoSingle =
  s_name :: string
  s_limits :: "real \<times> real"
  s_target :: "real option"
  s_idx :: nat

text \<open>
  What the module does to the outside, in the order it does it: a move handed to a real
  positioner (position, timeout), the arrival of a real positioner's completion with its
  success flag, the terminal completion of the group move, a published readback, a stop
  handed to a real positioner, the log entry for a stop that raised, and the base
  class's stop.
\<close>

datatype event =
    MoveRequested axis real "real option"
  | MoveFinished axis bool
  | DoneMoving bool
  | ReadbackChanged "real list"
  | StopCalled axis
  | StopFailureLogged axis exn
  | BaseStop

text \<open>
  The attributes of a \<^verbatim>\<open>PseudoPositioner\<close> instance. \<open>real_positioners\<close> and
  \<open>pseudo_positioners\<close> are \<^verbatim>\<open>_real\<close> and \<^verbatim>\<open>_pseudo\<close>;
  \<open>real_cur_pos\<close> is the OrderedDict \<^verbatim>\<open>_real_cur_pos\<close>, whose values are None
  until the axis reports. \<open>pending_status\<close>, \<open>seq_t0\<close> and \<open>seq_timeout\<close> are
  the variables that the closure \<^verbatim>\<open>move_next\<close> of the running sequential move
  captures; a status in \<open>pending_status\<close> is the real axis whose move returned it,
  with its success flag (False until the move has finished). \<open>cur_position\<close> is the
  position the base class stores, and \<open>trace\<close> the events so far.
\<close>

record PseudoPositioner =
  concurrent :: bool
  real_positioners :: "axis list"
  pseudo_positioners :: "PseudoSingle list"
  real_cur_pos :: "(axis \<times> real option) list"
  real_waiting :: "axis list"
  move_queue :: "(axis \<times> real) list"
  pending_status :: "(axis \<times> bool) list"
  seq_t0 :: real
  seq_timeout :: "real option"
  cur_position :: "real list option"
  trace :: "event list"

text \<open>
  What the instance runs against. The subclass supplies \<^verbatim>\<open>forward\<close> and
  \<^verbatim>\<open>inverse\<close> (which may raise, and \<^verbatim>\<open>inverse\<close> is handed the cache as it
  is, None entries included). Each real positioner supplies \<^verbatim>\<open>check_value\<close> and
  \<^verbatim>\<open>stop\<close> (None: returns normally) and decides when the completion of a move it
  is handed arrives: \<open>completes_inside_move\<close> is None when the callback is called
  after \<^verbatim>\<open>real.move\<close> has returned, and \<open>Some (success, now)\<close> when the move
  finishes with that success flag and the callback runs before \<^verbatim>\<open>real.move\<close>
  returns, \<open>now\<close> being the clock the callback reads. The interpreter supplies
  \<open>fsub\<close>, the subtraction of Python floats: clock readings and timeouts are doubles,
  taken here as the real numbers they denote, and their difference is rounded.
\<close>

record collaborators =
  forward :: "real list \<Rightarrow> exn + real list"
  inverse :: "real option list \<Rightarrow> exn + real list"
  real_check_value :: "axis \<Rightarrow> real \<Rightarrow> exn option"
  real_stop :: "axis \<Rightarrow> exn option"
  completes_inside_move :: "axis \<Rightarrow> (bool \<times> real) option"
  fsub :: "real \<Rightarrow> real \<Rightarrow> real"

subsection \<open>Position cache and readback (lines 567--595)\<close>

text \<open>\<^verbatim>\<open>d[key] = value\<close> on an OrderedDict: a known key keeps its place.\<close>

fun dict_setitem :: "('k \<times> 'v) list \<Rightarrow> 'k \<Rightarrow> 'v \<Rightarrow> ('k \<times> 'v) list" where
  "dict_setitem [] k v = [(k, v)]"
| "dict_setitem ((k', v') # d) k v =
     (if k' = k then (k, v) # d else (k', v') # dict_setitem d k v)"

text \<open>
  \<^verbatim>\<open>real_position\<close>: \<^verbatim>\<open>self.RealPosition(*self._real_cur_pos.values())\<close>; the
  namedtuple has one field per real positioner.
\<close>

definition real_position :: "PseudoPositioner \<Rightarrow> error + real option list" where
  "real_position st =
     (let vals = map snd (real_cur_pos st) in
      if length vals = length (real_positioners st) then Inr vals
      else Inl (ArityError (length (real_positioners st)) (length vals)))"

text \<open>
  \<^verbatim>\<open>position\<close>: \<^verbatim>\<open>return self.inverse(self.real_position)\<close>. The argument
  wrapper of \<^verbatim>\<open>inverse\<close> hands an instance of RealPosition on unchanged (the
  instance case of \<^verbatim>\<open>to_position_tuple\<close>), so \<^verbatim>\<open>inverse\<close> sees the cache values.
\<close>

definition position :: "collaborators \<Rightarrow> PseudoPositioner \<Rightarrow> error + real list" where
  "position c st =
     (case real_position st of
        Inl e \<Rightarrow> Inl e
      | Inr real_pos \<Rightarrow>
          (case inverse c real_pos of Inl x \<Rightarrow> Inl (Raised x) | Inr p \<Rightarrow> Inr p))"

text \<open>
  Modelled from the spec: \<^verbatim>\<open>_set_position\<close> of the base positioner
  (positioner.py is not among the sources) stores the computed position and publishes it
  as a readback-changed event.
\<close>

definition set_position :: "real list \<Rightarrow> PseudoPositioner \<Rightarrow> PseudoPositioner" where
  "set_position calc st = st\<lparr>cur_position := Some calc, trace := trace st @ [ReadbackChanged calc]\<rparr>"

definition update_position ::
  "collaborators \<Rightarrow> PseudoPositioner \<Rightarrow> (error + real list) \<times> PseudoPositioner"
where
  "update_position c st =
     (case real_position st of
        Inl e \<Rightarrow> (Inl e, st)
      | Inr real_cur \<Rightarrow>
          if None \<in> set real_cur then (Inl DisconnectedError, st)
          else
            (case inverse c real_cur of
               Inl x \<Rightarrow> (Inl (Raised x), st)
             | Inr calc_pseudo_pos \<Rightarrow> (Inr calc_pseudo_pos, set_position calc_pseudo_pos st)))"

text \<open>
  \<^verbatim>\<open>_real_pos_update\<close>: the callback of a real positioner's readback. The
  \<^verbatim>\<open>except DisconnectedError\<close> encloses all of \<^verbatim>\<open>_update_position\<close>, the call of
  \<^verbatim>\<open>inverse\<close> included: it catches the module's own DisconnectedError and one
  that \<^verbatim>\<open>inverse\<close> raises, and nothing else.
\<close>

fun is_DisconnectedError :: "error \<Rightarrow> bool" where
  "is_DisconnectedError DisconnectedError = True"
| "is_DisconnectedError (Raised ExnDisconnected) = True"
| "is_DisconnectedError e = False"

definition real_pos_update ::
  "collaborators \<Rightarrow> axis \<Rightarrow> real option \<Rightarrow> PseudoPositioner \<Rightarrow> (error + unit) \<times> PseudoPositioner"
where
  "real_pos_update c obj val st =
     (let st1 = st\<lparr>real_cur_pos := dict_setitem (real_cur_pos st) obj val\<rparr>;
          (r, st2) = update_position c st1
      in case r of
           Inl e \<Rightarrow> if is_DisconnectedError e then (Inr (), st2) else (Inl e, st2)
         | Inr calc \<Rightarrow> (Inr (), st2))"

text \<open>Readback notifications arriving one after the other; a raising callback does not stop the next.\<close>

fun readback_notifications ::
  "collaborators \<Rightarrow> (axis \<times> real option) list \<Rightarrow> PseudoPositioner \<Rightarrow> PseudoPositioner"
where
  "readback_notifications c [] st = st"
| "readback_notifications c ((obj, val) # ns) st =
     readback_notifications c ns (snd (real_pos_update c obj val st))"

subsection \<open>The pseudo axis: target, sync, position (lines 90--117)\<close>

text \<open>\<^verbatim>\<open>PseudoSingle.position\<close>: \<^verbatim>\<open>self._parent.position[self._idx]\<close>.\<close>

definition PseudoSingle_position ::
  "collaborators \<Rightarrow> PseudoPositioner \<Rightarrow> PseudoSingle \<Rightarrow> error + real"
where
  "PseudoSingle_position c st s =
     (case position c st of
        Inl e \<Rightarrow> Inl e
      | Inr p \<Rightarrow> if s_idx s < length p then Inr (p ! s_idx s) else Inl IndexError)"

definition PseudoSingle_target ::
  "collaborators \<Rightarrow> PseudoPositioner \<Rightarrow> PseudoSingle \<Rightarrow> error + real"
where
  "PseudoSingle_target c st s =
     (case s_target s of
        None \<Rightarrow> PseudoSingle_position c st s
      | Some t \<Rightarrow> Inr t)"

text \<open>
  A pseudo axis is an element of \<^verbatim>\<open>_pseudo\<close>; the model names it by its place
  \<open>i\<close> in that list. An assignment to its \<^verbatim>\<open>_target\<close> is an update of the list.
\<close>

definition set_target :: "nat \<Rightarrow> real option \<Rightarrow> PseudoPositioner \<Rightarrow> PseudoPositioner" where
  "set_target i t st =
     st\<lparr>pseudo_positioners :=
          (pseudo_positioners st)[i := (pseudo_positioners st ! i)\<lparr>s_target := t\<rparr>]\<rparr>"

definition PseudoSingle_sync :: "nat \<Rightarrow> PseudoPositioner \<Rightarrow> PseudoPositioner" where
  "PseudoSingle_sync i st = set_target i None st"

subsection \<open>Validation (lines 494--520) and the group target (lines 639--642)\<close>

fun check_limits :: "(PseudoSingle \<times> real) list \<Rightarrow> error option" where
  "check_limits [] = None"
| "check_limits ((pseudo, pos) # rest) =
     (let (low, high) = s_limits pseudo in
      if high > low \<and> \<not> (low \<le> pos \<and> pos \<le> high)
      then Some (OutsidePseudoLimits (s_name pseudo) low pos high)
      else check_limits rest)"

fun check_reals :: "collaborators \<Rightarrow> (axis \<times> real) list \<Rightarrow> exn option" where
  "check_reals c [] = None"
| "check_reals c ((r, pos) # rest) =
     (case real_check_value c r pos of
        Some x \<Rightarrow> Some x
      | None \<Rightarrow> check_reals c rest)"

definition check_value :: "collaborators \<Rightarrow> PseudoPositioner \<Rightarrow> real list \<Rightarrow> error + unit" where
  "check_value c st pseudo_pos =
     (if length pseudo_pos \<noteq> length (pseudo_positioners st) then Inl NotAllRequiredValues
      else
        (case check_limits (zip (pseudo_positioners st) pseudo_pos) of
           Some e \<Rightarrow> Inl e
         | None \<Rightarrow>
             (case forward c pseudo_pos of
                Inl x \<Rightarrow> Inl (Raised x)
              | Inr real_pos \<Rightarrow>
                  (case check_reals c (zip (real_positioners st) real_pos) of
                     Some x \<Rightarrow> Inl (Raised x)
                   | None \<Rightarrow> Inr ()))))"

text \<open>Evaluating a generator of fallible items in order: the first exception ends it.\<close>

fun collect :: "('a \<Rightarrow> error + 'b) \<Rightarrow> 'a list \<Rightarrow> error + 'b list" where
  "collect f [] = Inr []"
| "collect f (x # xs) =
     (case f x of
        Inl e \<Rightarrow> Inl e
      | Inr y \<Rightarrow> (case collect f xs of Inl e \<Rightarrow> Inl e | Inr ys \<Rightarrow> Inr (y # ys)))"

text \<open>\<^verbatim>\<open>target\<close>: \<^verbatim>\<open>self.PseudoPosition(*(pos.target for pos in self._pseudo))\<close>.\<close>

definition target :: "collaborators \<Rightarrow> PseudoPositioner \<Rightarrow> error + real list" where
  "target c st = collect (PseudoSingle_target c st) (pseudo_positioners st)"

subsection \<open>Completion and scheduling (lines 597--616, 644--701, 738--763)\<close>

text \<open>
  Modelled from the spec: \<^verbatim>\<open>_done_moving\<close> of the base positioner (positioner.py is
  not among the sources) raises the group's terminal completion with the success flag it
  is given. The override first empties \<^verbatim>\<open>_real_waiting\<close>.
\<close>

definition done_moving :: "bool \<Rightarrow> PseudoPositioner \<Rightarrow> PseudoPositioner" where
  "done_moving success st = st\<lparr>real_waiting := [], trace := trace st @ [DoneMoving success]\<rparr>"

text \<open>
  \<^verbatim>\<open>_real_finished\<close>: the completion callback of the concurrent mode. It is called
  with the real positioner only; \<^verbatim>\<open>_done_moving()\<close> is called with no argument, so
  with the default \<^verbatim>\<open>success=True\<close>.
\<close>

definition real_finished :: "axis \<Rightarrow> PseudoPositioner \<Rightarrow> PseudoPositioner" where
  "real_finished obj st =
     (if obj \<in> set (real_waiting st) then
        (let st1 = st\<lparr>real_waiting := remove1 obj (real_waiting st)\<rparr> in
         if real_waiting st1 = [] then done_moving True st1 else st1)
      else st)"

text \<open>
  \<^verbatim>\<open>move_next\<close>, the closure of \<^verbatim>\<open>_sequential_move\<close>; \<open>now\<close> is what
  \<^verbatim>\<open>time.time()\<close> returns in this call. The status is appended to
  \<^verbatim>\<open>pending_status\<close> after \<^verbatim>\<open>real.move\<close> has returned. When the move finishes
  inside \<^verbatim>\<open>real.move\<close>, the callback, which is \<^verbatim>\<open>move_next\<close> itself, runs
  there (the lock is re-entrant) and does not find the status of this move in the list.
  Each call takes one pair off the queue before it can call itself, which bounds the
  nesting.
\<close>

function move_next :: "collaborators \<Rightarrow> real \<Rightarrow> PseudoPositioner \<Rightarrow> PseudoPositioner" where
  "move_next c now st =
     (if pending_status st \<noteq> [] \<and> \<not> snd (last (pending_status st)) then done_moving False st
      else
        (case move_queue st of
           [] \<Rightarrow> done_moving True st
         | (r, pos) # rest \<Rightarrow>
             (let st1 = st\<lparr>move_queue := rest\<rparr>;
                  elapsed = fsub c now (seq_t0 st1);
                  sub_timeout = (case seq_timeout st1 of
                                   None \<Rightarrow> None
                                 | Some timeout \<Rightarrow> Some (fsub c timeout elapsed))
              in if (case sub_timeout of None \<Rightarrow> False | Some t \<Rightarrow> t < 0)
                 then done_moving False st1
                 else
                   (let st2 = st1\<lparr>trace := trace st1 @ [MoveRequested r pos sub_timeout]\<rparr> in
                    case completes_inside_move c r of
                      None \<Rightarrow> st2\<lparr>pending_status := pending_status st2 @ [(r, False)]\<rparr>
                    | Some (success, now') \<Rightarrow>
                        (let st3 = move_next c now'
                                     (st2\<lparr>trace := trace st2 @ [MoveFinished r success]\<rparr>)
                         in st3\<lparr>pending_status := pending_status st3 @ [(r, success)]\<rparr>)))))"
  by pat_completeness auto
termination
  by (relation "measure (\<lambda>(c, now, st). length (move_queue st))") auto

declare move_next.simps [simp del]

text \<open>
  \<^verbatim>\<open>_sequential_move\<close>: \<open>t0\<close> is the clock when the queue is filled, \<open>now\<close> the
  clock in the first call of \<^verbatim>\<open>move_next\<close>.
\<close>

definition sequential_move ::
  "collaborators \<Rightarrow> real list \<Rightarrow> real option \<Rightarrow> real \<Rightarrow> real \<Rightarrow> PseudoPositioner
     \<Rightarrow> PseudoPositioner"
where
  "sequential_move c real_pos timeout t0 now st =
     move_next c now
       (st\<lparr>move_queue := zip (real_positioners st) real_pos,
           pending_status := [], seq_t0 := t0, seq_timeout := timeout\<rparr>)"

text \<open>
  The loop of \<^verbatim>\<open>_concurrent_move\<close>: each real positioner is handed its move with
  \<^verbatim>\<open>_real_finished\<close> as the callback, which runs there and then when the move
  finishes inside \<^verbatim>\<open>real.move\<close>.
\<close>

fun concurrent_dispatch ::
  "collaborators \<Rightarrow> real option \<Rightarrow> (axis \<times> real) list \<Rightarrow> PseudoPositioner \<Rightarrow> PseudoPositioner"
where
  "concurrent_dispatch c timeout [] st = st"
| "concurrent_dispatch c timeout ((r, v) # rest) st =
     (let st1 = st\<lparr>trace := trace st @ [MoveRequested r v timeout]\<rparr> in
      concurrent_dispatch c timeout rest
        (case completes_inside_move c r of
           None \<Rightarrow> st1
         | Some (success, now') \<Rightarrow>
             real_finished r (st1\<lparr>trace := trace st1 @ [MoveFinished r success]\<rparr>)))"

definition concurrent_move ::
  "collaborators \<Rightarrow> real list \<Rightarrow> real option \<Rightarrow> PseudoPositioner \<Rightarrow> PseudoPositioner"
where
  "concurrent_move c real_pos timeout st =
     concurrent_dispatch c timeout (zip (real_positioners st) real_pos)
       (st\<lparr>real_waiting := real_waiting st @ real_positioners st\<rparr>)"

definition setup_move ::
  "collaborators \<Rightarrow> real list \<Rightarrow> real option \<Rightarrow> real \<Rightarrow> real \<Rightarrow> PseudoPositioner
     \<Rightarrow> (error + unit) \<times> PseudoPositioner"
where
  "setup_move c pseudo_pos timeout t0 now st =
     (let st1 = st\<lparr>real_waiting := []\<rparr> in
      case forward c pseudo_pos of
        Inl x \<Rightarrow> (Inl (Raised x), st1)
      | Inr real_pos \<Rightarrow>
          (Inr (),
           if \<not> concurrent st1 then sequential_move c real_pos timeout t0 now st1
           else concurrent_move c real_pos timeout st1))"

text \<open>
  Modelled from the spec: \<^verbatim>\<open>move\<close> of the base positioner (positioner.py is not
  among the sources), to which \<^verbatim>\<open>PseudoPositioner.move\<close> delegates: it validates
  the position with \<^verbatim>\<open>check_value\<close>, raising what that raises, and then calls
  \<^verbatim>\<open>_setup_move\<close>. The position is already a PseudoPosition here, which the
  argument wrapper passes through unchanged.
\<close>

definition move ::
  "collaborators \<Rightarrow> real list \<Rightarrow> real option \<Rightarrow> real \<Rightarrow> real \<Rightarrow> PseudoPositioner
     \<Rightarrow> (error + unit) \<times> PseudoPositioner"
where
  "move c pseudo_pos timeout t0 now st =
     (case check_value c st pseudo_pos of
        Inl e \<Rightarrow> (Inl e, st)
      | Inr u \<Rightarrow> setup_move c pseudo_pos timeout t0 now st)"

text \<open>
  \<^verbatim>\<open>move_single\<close> (\<open>single_pos\<close> is its \<^verbatim>\<open>position\<close>):
  \<^verbatim>\<open>target[idx] = position\<close> raises IndexError past the end of
  the list.
\<close>

definition move_single ::
  "collaborators \<Rightarrow> PseudoSingle \<Rightarrow> real \<Rightarrow> real option \<Rightarrow> real \<Rightarrow> real \<Rightarrow> PseudoPositioner
     \<Rightarrow> (error + unit) \<times> PseudoPositioner"
where
  "move_single c pseudo single_pos timeout t0 now st =
     (let idx = s_idx pseudo in
      case target c st of
        Inl e \<Rightarrow> (Inl e, st)
      | Inr tgt \<Rightarrow>
          if idx < length tgt then move c (tgt[idx := single_pos]) timeout t0 now st
          else (Inl IndexError, st))"

text \<open>
  \<^verbatim>\<open>PseudoSingle.move\<close> of the pseudo axis at place \<open>i\<close>:
  \<^verbatim>\<open>self._target = pos\<close>, then \<^verbatim>\<open>self._parent.move_single(self, pos)\<close>. A place
  past the list names no axis; the model answers IndexError there.
\<close>

definition PseudoSingle_move ::
  "collaborators \<Rightarrow> nat \<Rightarrow> real \<Rightarrow> real option \<Rightarrow> real \<Rightarrow> real \<Rightarrow> PseudoPositioner
     \<Rightarrow> (error + unit) \<times> PseudoPositioner"
where
  "PseudoSingle_move c i pos timeout t0 now st =
     (if i < length (pseudo_positioners st) then
        (let st1 = set_target i (Some pos) st in
         move_single c (pseudo_positioners st1 ! i) pos timeout t0 now st1)
      else (Inl IndexError, st))"

subsection \<open>Stop (lines 467--477)\<close>

text \<open>The loop over \<^verbatim>\<open>self._real\<close>: an exception of \<^verbatim>\<open>pos.stop()\<close> is logged.\<close>

fun stop_reals :: "collaborators \<Rightarrow> axis list \<Rightarrow> PseudoPositioner \<Rightarrow> PseudoPositioner" where
  "stop_reals c [] st = st"
| "stop_reals c (pos # rest) st =
     stop_reals c rest
       (case real_stop c pos of
          None \<Rightarrow> st\<lparr>trace := trace st @ [StopCalled pos]\<rparr>
        | Some ex \<Rightarrow> st\<lparr>trace := trace st @ [StopCalled pos, StopFailureLogged pos ex]\<rparr>)"

text \<open>
  Modelled from the spec: \<^verbatim>\<open>stop\<close> of the base positioner (positioner.py is not
  among the sources) is the group's own stop bookkeeping, one event here.
\<close>

definition base_stop :: "PseudoPositioner \<Rightarrow> PseudoPositioner" where
  "base_stop st = st\<lparr>trace := trace st @ [BaseStop]\<rparr>"

definition stop :: "collaborators \<Rightarrow> PseudoPositioner \<Rightarrow> (error + unit) \<times> PseudoPositioner" where
  "stop c st =
     (let st1 = st\<lparr>move_queue := []\<rparr>;
          st2 = stop_reals c (real_positioners st1) st1
      in (Inr (), base_stop st2))"

subsection \<open>Completions arriving from the real positioners\<close>

text \<open>
  Sequential mode, one group move at a time. A move is in flight from its request until
  its completion arrives, whatever else happens in between. A completion that arrives
  after \<^verbatim>\<open>real.move\<close> has returned finds the status of its move in
  \<open>pending_status\<close>: the real positioner sets its success flag and calls
  \<^verbatim>\<open>move_next\<close>. Such a completion is a success flag and the clock at its arrival;
  with no move in flight none arrives.
\<close>

fun track_move :: "axis option \<Rightarrow> event \<Rightarrow> axis option" where
  "track_move cur (MoveRequested r p t) = Some r"
| "track_move cur (MoveFinished r b) = None"
| "track_move cur e = cur"

definition in_flight :: "PseudoPositioner \<Rightarrow> axis option" where
  "in_flight st = foldl track_move None (trace st)"

definition status_finished :: "axis \<Rightarrow> bool \<Rightarrow> PseudoPositioner \<Rightarrow> PseudoPositioner" where
  "status_finished r success st =
     st\<lparr>pending_status := map (\<lambda>(a, s). if a = r then (a, success) else (a, s)) (pending_status st),
        trace := trace st @ [MoveFinished r success]\<rparr>"

fun sequential_completions ::
  "collaborators \<Rightarrow> (bool \<times> real) list \<Rightarrow> PseudoPositioner \<Rightarrow> PseudoPositioner"
where
  "sequential_completions c [] st = st"
| "sequential_completions c ((success, now) # cs) st =
     (case in_flight st of
        None \<Rightarrow> st
      | Some r \<Rightarrow> sequential_completions c cs (move_next c now (status_finished r success st)))"

text \<open>
  Concurrent mode. The completions that arrive after the moves have been handed out,
  each with its success flag, in any order; each calls \<^verbatim>\<open>_real_finished(obj=real)\<close>.
\<close>

fun concurrent_completions :: "(axis \<times> bool) list \<Rightarrow> PseudoPositioner \<Rightarrow> PseudoPositioner" where
  "concurrent_completions [] st = st"
| "concurrent_completions ((r, success) # cs) st =
     concurrent_completions cs
       (real_finished r (st\<lparr>trace := trace st @ [MoveFinished r success]\<rparr>))"

text \<open>
  The sequential policy in the words of the specification, with no timeout: the moves go out in the order
  of the queue, each after the one before it has reported success; a failure ends the
  group move as a failure, and the end of the queue ends it as a success.
\<close>

fun sequential_spec :: "(axis \<times> real) list \<Rightarrow> bool list \<Rightarrow> event list" where
  "sequential_spec [] outcomes = [DoneMoving True]"
| "sequential_spec ((r, p) # queue) [] = [MoveRequested r p None]"
| "sequential_spec ((r, p) # queue) (success # outcomes) =
     MoveRequested r p None # MoveFinished r success #
       (if success then sequential_spec queue outcomes else [DoneMoving False])"

subsection \<open>Reading a sequential move\<close>

text \<open>
  The timeout that a call of \<^verbatim>\<open>move_next\<close> at clock \<open>now\<close> computes for the move
  it is about to hand out (\<^verbatim>\<open>sub_timeout\<close>), and the test that keeps it from
  handing the move out (\<^verbatim>\<open>sub_timeout is not None and sub_timeout < 0\<close>).
\<close>

definition remaining :: "collaborators \<Rightarrow> real \<Rightarrow> PseudoPositioner \<Rightarrow> real option" where
  "remaining c now st =
     (case seq_timeout st of
        None \<Rightarrow> None
      | Some timeout \<Rightarrow> Some (fsub c timeout (fsub c now (seq_t0 st))))"

definition spent :: "real option \<Rightarrow> bool" where
  "spent sub_timeout = (case sub_timeout of None \<Rightarrow> False | Some t \<Rightarrow> t < 0)"

text \<open>
  One state extends another when it has the same configuration, cache, captured start
  time and timeout, and its trace continues the other's.
\<close>

definition extends :: "PseudoPositioner \<Rightarrow> PseudoPositioner \<Rightarrow> bool" where
  "extends st st' \<longleftrightarrow>
     (\<exists>later. trace st' = trace st @ later)
     \<and> concurrent st' = concurrent st \<and> real_positioners st' = real_positioners st
     \<and> pseudo_positioners st' = pseudo_positioners st \<and> real_cur_pos st' = real_cur_pos st
     \<and> seq_t0 st' = seq_t0 st \<and> seq_timeout st' = seq_timeout st
     \<and> cur_position st' = cur_position st"

subsection \<open>The limit test in the words of the specification\<close>

text \<open>
  A pseudo axis rejects a scalar when its limit pair (low, high) has high > low and the
  scalar lies outside [low, high]; with high \<le> low the axis is unbounded.
\<close>

definition outside_limits :: "PseudoSingle \<Rightarrow> real \<Rightarrow> bool" where
  "outside_limits pseudo pos =
     (case s_limits pseudo of (low, high) \<Rightarrow> high > low \<and> (pos < low \<or> high < pos))"

subsection \<open>Reading a trace\<close>

text \<open>The events that hand a move to a real positioner.\<close>

fun is_request :: "event \<Rightarrow> bool" where
  "is_request (MoveRequested r p t) = True"
| "is_request e = False"

text \<open>What the stop loop does for one real positioner.\<close>

definition stop_events :: "collaborators \<Rightarrow> axis \<Rightarrow> event list" where
  "stop_events c pos =
     (case real_stop c pos of
        None \<Rightarrow> [StopCalled pos]
      | Some ex \<Rightarrow> [StopCalled pos, StopFailureLogged pos ex])"

subsection \<open>Example configurations\<close>

text \<open>
  A positioner with one pseudo axis over two real axes, in the manner of the transforms
  of ophyd's tests: \<^verbatim>\<open>forward\<close> sends \<open>p\<close> to \<open>(-p, -p)\<close> and \<^verbatim>\<open>inverse\<close>
  reads the first real axis only, \<^verbatim>\<open>PseudoPosition(pseudo1=-real_pos.A)\<close>, which
  raises TypeError when that entry is None. The real axes accept every value, stop
  without raising and report the completion of a move after \<^verbatim>\<open>real.move\<close> has
  returned. The clock readings and timeouts of the examples are small integers, on which
  the subtraction of doubles is exact.
\<close>

definition pseudo1x2 :: collaborators where
  "pseudo1x2 =
     \<lparr>forward = (\<lambda>p. case p of [x] \<Rightarrow> Inr [- x, - x] | _ \<Rightarrow> Inl (Exn ''TypeError'')),
      inverse = (\<lambda>r. case r of Some a # rest \<Rightarrow> Inr [- a] | _ \<Rightarrow> Inl (Exn ''TypeError'')),
      real_check_value = (\<lambda>r v. None),
      real_stop = (\<lambda>r. None),
      completes_inside_move = (\<lambda>r. None),
      fsub = (\<lambda>a b. a - b)\<rparr>"

text \<open>Its state after construction, sequential policy: nothing reported, nothing moving.\<close>

definition ab_idle :: PseudoPositioner where
  "ab_idle =
     \<lparr>concurrent = False, real_positioners = [''A'', ''B''],
      pseudo_positioners = [\<lparr>s_name = ''pseudo1'', s_limits = (-10, 10), s_target = None, s_idx = 0\<rparr>],
      real_cur_pos = [(''A'', None), (''B'', None)], real_waiting = [], move_queue = [],
      pending_status = [], seq_t0 = 0, seq_timeout = None, cur_position = None, trace = []\<rparr>"

text \<open>The same with the concurrent policy.\<close>

definition ab_concurrent :: PseudoPositioner where
  "ab_concurrent = ab_idle\<lparr>concurrent := True\<rparr>"

text \<open>The same once real axis A has reported 2 and B has not reported yet.\<close>

definition ab_half_connected :: PseudoPositioner where
  "ab_half_connected = ab_idle\<lparr>real_cur_pos := [(''A'', Some 2), (''B'', None)]\<rparr>"

text \<open>The example positioner with real axes that accept values in [-8, 8] only.\<close>

definition pseudo1x2_limited :: collaborators where
  "pseudo1x2_limited =
     pseudo1x2\<lparr>real_check_value := (\<lambda>r v. if - 8 \<le> v \<and> v \<le> 8 then None else Some (Exn ''LimitError''))\<rparr>"

text \<open>The example positioner when the stop of real axis A raises.\<close>

definition pseudo1x2_stop_raises :: collaborators where
  "pseudo1x2_stop_raises =
     pseudo1x2\<lparr>real_stop := (\<lambda>r. if r = ''A'' then Some (Exn ''RuntimeError'') else None)\<rparr>"



text \<open>
  The example positioner over real axes whose moves finish before \<^verbatim>\<open>real.move\<close>
  returns, A's as a failure and B's as a success; and the same with only A's move
  finishing that early.
\<close>

definition pseudo1x2_immediate :: collaborators where
  "pseudo1x2_immediate =
     pseudo1x2\<lparr>completes_inside_move :=
       (\<lambda>r. if r = ''A'' then Some (False, 0) else Some (True, 0))\<rparr>"

definition pseudo1x2_A_immediate :: collaborators where
  "pseudo1x2_A_immediate =
     pseudo1x2\<lparr>completes_inside_move := (\<lambda>r. if r = ''A'' then Some (False, 0) else None)\<rparr>"

text \<open>
  The doubles nearest to 0.1 and to 1.1. Their difference is not a double; the
  subtraction of doubles rounds it to 1. The example positioner on an interpreter whose
  subtraction is given, for these two operands, by that rounded result.
\<close>

definition double_0_1 :: real where
  "double_0_1 = 3602879701896397 / 2 ^ 55"

definition double_1_1 :: real where
  "double_1_1 = 2476979795053773 / 2 ^ 51"

definition pseudo1x2_rounding :: collaborators where
  "pseudo1x2_rounding =
     pseudo1x2\<lparr>fsub := (\<lambda>a b. if a = double_1_1 \<and> b = double_0_1 then 1 else a - b)\<rparr>"

text \<open>
  The example positioner in a sequential move to real positions 10 and 20 with a timeout
  of 5, the queue filled at clock 100 and A's move handed out at 101, at the moment A's
  completion has arrived as a success.
\<close>

definition ab_first_done :: PseudoPositioner where
  "ab_first_done =
     status_finished ''A'' True (sequential_move pseudo1x2 [10, 20] (Some 5) 100 101 ab_idle)"

section \<open>Properties\<close>

subsection \<open>The position tuple\<close>

lemma getitems_values:
  "\<forall>i < length fs. map_of kwargs (fs ! i) = Some (vs ! i) \<Longrightarrow> length vs = length fs
     \<Longrightarrow> getitems kwargs fs = Inr vs"
proof (induction fs arbitrary: vs)
  case Nil
  then show ?case by simp
next
  case (Cons f fs)
  then obtain v vs' where vs: "vs = v # vs'"
    by (cases vs) auto
  from Cons.prems(1) vs have hd: "map_of kwargs f = Some v"
    by (metis length_greater_0_conv list.distinct(1) nth_Cons_0)
  have tl: "\<forall>i < length fs. map_of kwargs (fs ! i) = Some (vs' ! i)"
  proof (intro allI impI)
    fix i assume "i < length fs"
    then have "Suc i < length (f # fs)" by simp
    with Cons.prems(1) have "map_of kwargs ((f # fs) ! Suc i) = Some (vs ! Suc i)"
      by blast
    then show "map_of kwargs (fs ! i) = Some (vs' ! i)"
      using vs by simp
  qed
  from Cons.prems(2) vs have "length vs' = length fs" by simp
  with Cons.IH tl have "getitems kwargs fs = Inr vs'" by blast
  with hd vs show ?case by simp
qed

lemma no_missing_fields:
  assumes "\<forall>i < length fs. map_of kwargs (fs ! i) = Some (vs ! i)"
  shows "filter (\<lambda>field. field \<notin> fst ` set kwargs) fs = []"
proof -
  have "f \<in> fst ` set kwargs" if "f \<in> set fs" for f
  proof -
    from that obtain i where "i < length fs" "fs ! i = f"
      by (auto simp: in_set_conv_nth)
    with assms have "map_of kwargs f = Some (vs ! i)" by auto
    then show ?thesis
      by (metis map_of_eq_None_iff option.distinct(1))
  qed
  then show ?thesis by (auto simp: filter_empty_conv)
qed

text \<open>
  C5. For a namedtuple class with at least one field, a position given as N positional
  values that are not sequences, as one sequence, as one instance of the class, or as
  keyword arguments naming every field, parses to the same instance of the class and
  leaves the same unrelated keyword arguments \<open>opts\<close>: the keyword arguments of the
  last form are any list \<open>kw\<close> that gives every field its value and whose other
  entries are \<open>opts\<close>.
\<close>

theorem to_position_tuple_conventions_agree:
  assumes fields: "fs \<noteq> []"
    and arity: "length vs = length fs"
    and scalars: "\<forall>v \<in> set vs. \<not> isinstance_Sequence v"
    and named: "\<forall>i < length fs. map_of kw (fs ! i) = Some (vs ! i)"
    and others: "filter (\<lambda>(key, v). key \<notin> set fs) kw = opts"
  shows "to_position_tuple (NamedTuple n fs) vs opts = Inr (PTuple n fs vs, opts)
       \<and> to_position_tuple (NamedTuple n fs) [PSeq vs] opts = Inr (PTuple n fs vs, opts)
       \<and> to_position_tuple (NamedTuple n fs) [PTuple n fs vs] opts = Inr (PTuple n fs vs, opts)
       \<and> to_position_tuple (NamedTuple n fs) [] kw = Inr (PTuple n fs vs, opts)"
proof -
  from fields arity have vs_ne: "vs \<noteq> []" by auto
  then have "hd vs \<in> set vs" by simp
  with scalars have not_seq: "\<not> isinstance_Sequence (hd vs)" by blast
  then have not_cls: "\<not> isinstance_cls (hd vs) (NamedTuple n fs)"
    by (cases "hd vs") auto
  have pos_case: "to_position_tuple (NamedTuple n fs) vs opts = Inr (PTuple n fs vs, opts)"
    using fields arity vs_ne not_seq not_cls
    by (simp add: to_position_tuple_def construct_def)
  have seq_case: "to_position_tuple (NamedTuple n fs) [PSeq vs] opts = Inr (PTuple n fs vs, opts)"
    using fields arity by (simp add: to_position_tuple_def construct_def)
  have inst: "to_position_tuple (NamedTuple n fs) [PTuple n fs vs] opts = Inr (PTuple n fs vs, opts)"
    using fields by (simp add: to_position_tuple_def)
  from fields named have "map_of kw (fs ! 0) = Some (vs ! 0)" by blast
  then have kw_ne: "kw \<noteq> []" by auto
  have kw_case: "to_position_tuple (NamedTuple n fs) [] kw = Inr (PTuple n fs vs, opts)"
    using fields kw_ne no_missing_fields [OF named] getitems_values [OF named arity] others
    by (simp add: to_position_tuple_def)
  from pos_case seq_case inst kw_case show ?thesis by blast
qed

theorem to_position_tuple_conventions_agree_witness:
  "to_position_tuple (NamedTuple ''Tuple'' [''px'', ''py'']) [PNum 1, PNum 2] [(''a'', PNum 4)]
     = Inr (PTuple ''Tuple'' [''px'', ''py''] [PNum 1, PNum 2], [(''a'', PNum 4)])
   \<and> to_position_tuple (NamedTuple ''Tuple'' [''px'', ''py'']) [PSeq [PNum 1, PNum 2]] [(''a'', PNum 4)]
     = Inr (PTuple ''Tuple'' [''px'', ''py''] [PNum 1, PNum 2], [(''a'', PNum 4)])
   \<and> to_position_tuple (NamedTuple ''Tuple'' [''px'', ''py''])
       [PTuple ''Tuple'' [''px'', ''py''] [PNum 1, PNum 2]] [(''a'', PNum 4)]
     = Inr (PTuple ''Tuple'' [''px'', ''py''] [PNum 1, PNum 2], [(''a'', PNum 4)])
   \<and> to_position_tuple (NamedTuple ''Tuple'' [''px'', ''py'']) []
       [(''px'', PNum 1), (''a'', PNum 4), (''py'', PNum 2)]
     = Inr (PTuple ''Tuple'' [''px'', ''py''] [PNum 1, PNum 2], [(''a'', PNum 4)])"
proof -
  have named: "\<forall>i < length [''px'', ''py''].
      map_of [(''px'', PNum 1), (''a'', PNum 4), (''py'', PNum 2)] ([''px'', ''py''] ! i)
        = Some ([PNum 1, PNum 2] ! i)"
    by (simp add: less_Suc_eq)
  show ?thesis
    using to_position_tuple_conventions_agree
      [of "[''px'', ''py'']" "[PNum 1, PNum 2]"
          "[(''px'', PNum 1), (''a'', PNum 4), (''py'', PNum 2)]" "[(''a'', PNum 4)]" "''Tuple''",
       OF _ _ _ named]
    by simp
qed

subsection \<open>Sequential moves\<close>

lemma no_completion_without_move:
  "in_flight st = None \<Longrightarrow> sequential_completions c cs st = st"
  by (cases cs) auto

lemma in_flight_done_moving [simp]: "in_flight (done_moving b st) = in_flight st"
  by (simp add: in_flight_def done_moving_def)

lemma trace_done_moving [simp]: "trace (done_moving b st) = trace st @ [DoneMoving b]"
  by (simp add: done_moving_def)

text \<open>The branches of \<^verbatim>\<open>move_next\<close>, one lemma each.\<close>

lemma move_next_failed:
  "pending_status st \<noteq> [] \<Longrightarrow> \<not> snd (last (pending_status st))
     \<Longrightarrow> move_next c now st = done_moving False st"
  using move_next.simps [of c now st] by simp

lemma move_next_exhausted:
  "pending_status st = [] \<or> snd (last (pending_status st)) \<Longrightarrow> move_queue st = []
     \<Longrightarrow> move_next c now st = done_moving True st"
  using move_next.simps [of c now st] by auto

lemma move_next_spent:
  "pending_status st = [] \<or> snd (last (pending_status st)) \<Longrightarrow> move_queue st = (r, p) # q
     \<Longrightarrow> spent (remaining c now st)
     \<Longrightarrow> move_next c now st = done_moving False (st\<lparr>move_queue := q\<rparr>)"
  using move_next.simps [of c now st]
  by (auto simp: remaining_def spent_def Let_def split: option.splits)

lemma move_next_dispatch_later:
  "pending_status st = [] \<or> snd (last (pending_status st)) \<Longrightarrow> move_queue st = (r, p) # q
     \<Longrightarrow> \<not> spent (remaining c now st) \<Longrightarrow> completes_inside_move c r = None
     \<Longrightarrow> move_next c now st =
          st\<lparr>move_queue := q, pending_status := pending_status st @ [(r, False)],
             trace := trace st @ [MoveRequested r p (remaining c now st)]\<rparr>"
  using move_next.simps [of c now st]
  by (auto simp: remaining_def spent_def Let_def split: option.splits)

lemma move_next_dispatch_inside:
  "pending_status st = [] \<or> snd (last (pending_status st)) \<Longrightarrow> move_queue st = (r, p) # q
     \<Longrightarrow> \<not> spent (remaining c now st) \<Longrightarrow> completes_inside_move c r = Some (success, now')
     \<Longrightarrow> move_next c now st =
          (move_next c now'
             (st\<lparr>move_queue := q,
                 trace := trace st @ [MoveRequested r p (remaining c now st), MoveFinished r success]\<rparr>))
          \<lparr>pending_status :=
             pending_status
               (move_next c now'
                  (st\<lparr>move_queue := q,
                      trace := trace st @ [MoveRequested r p (remaining c now st), MoveFinished r success]\<rparr>))
             @ [(r, success)]\<rparr>"
  using move_next.simps [of c now st]
  by (auto simp: remaining_def spent_def Let_def split: option.splits)

text \<open>What a sequential move leaves alone, and that it only adds to the trace.\<close>

lemma extends_trans: "extends a b \<Longrightarrow> extends b c \<Longrightarrow> extends a c"
  by (auto simp: extends_def)

lemma extends_done_moving: "extends st (done_moving b st)"
  by (simp add: extends_def done_moving_def)

lemma extends_move_next: "extends st (move_next c now st)"
proof (induction "length (move_queue st)" arbitrary: st now rule: less_induct)
  case less
  show ?case
  proof (cases "pending_status st \<noteq> [] \<and> \<not> snd (last (pending_status st))")
    case True
    then show ?thesis
      by (simp add: move_next_failed extends_done_moving)
  next
    case False
    then have ready: "pending_status st = [] \<or> snd (last (pending_status st))" by blast
    show ?thesis
    proof (cases "move_queue st")
      case Nil
      with ready show ?thesis
        by (simp add: move_next_exhausted extends_done_moving)
    next
      case (Cons rp q)
      obtain r p where rp: "rp = (r, p)" by (cases rp)
      with Cons have queued: "move_queue st = (r, p) # q" by simp
      show ?thesis
      proof (cases "spent (remaining c now st)")
        case True
        have "extends st (st\<lparr>move_queue := q\<rparr>)"
          by (simp add: extends_def)
        moreover have "extends (st\<lparr>move_queue := q\<rparr>) (done_moving False (st\<lparr>move_queue := q\<rparr>))"
          by (rule extends_done_moving)
        ultimately show ?thesis
          unfolding move_next_spent [OF ready queued True] by (rule extends_trans)
      next
        case False
        show ?thesis
        proof (cases "completes_inside_move c r")
          case None
          show ?thesis
            unfolding move_next_dispatch_later [OF ready queued False None]
            by (simp add: extends_def)
        next
          case (Some sn)
          obtain success now' where sn: "sn = (success, now')" by (cases sn)
          define st2 where "st2 = st\<lparr>move_queue := q,
                 trace := trace st @ [MoveRequested r p (remaining c now st), MoveFinished r success]\<rparr>"
          have step: "move_next c now st
              = (move_next c now' st2)\<lparr>pending_status := pending_status (move_next c now' st2) @ [(r, success)]\<rparr>"
            using move_next_dispatch_inside [OF ready queued False] Some sn by (simp add: st2_def)
          have "length (move_queue st2) < length (move_queue st)"
            using queued by (simp add: st2_def)
          then have inner: "extends st2 (move_next c now' st2)"
            by (rule less)
          have outer: "extends st st2"
            by (simp add: extends_def st2_def)
          from outer inner have "extends st (move_next c now' st2)"
            by (rule extends_trans)
          then show ?thesis
            unfolding step by (simp add: extends_def)
        qed
      qed
    qed
  qed
qed

lemma extends_status_finished: "extends st (status_finished r b st)"
  by (simp add: extends_def status_finished_def)

lemma extends_sequential_completions: "extends st (sequential_completions c cs st)"
proof (induction cs arbitrary: st)
  case Nil
  show ?case by (simp add: extends_def)
next
  case (Cons x cs)
  obtain success now where x: "x = (success, now)" by (cases x)
  show ?case
  proof (cases "in_flight st")
    case None
    then show ?thesis by (simp add: x extends_def)
  next
    case (Some r)
    have "extends st (status_finished r success st)"
      by (rule extends_status_finished)
    moreover have "extends (status_finished r success st) (move_next c now (status_finished r success st))"
      by (rule extends_move_next)
    moreover have "extends (move_next c now (status_finished r success st))
        (sequential_completions c cs (move_next c now (status_finished r success st)))"
      by (rule Cons.IH)
    ultimately have "extends st (sequential_completions c cs (move_next c now (status_finished r success st)))"
      using extends_trans by blast
    then show ?thesis
      using Some x by simp
  qed
qed

text \<open>
  When every completion arrives after \<^verbatim>\<open>real.move\<close> has returned and no timeout is
  set, a sequential move follows the policy of the specification.
\<close>

lemma sequential_chain:
  assumes later: "\<And>r. completes_inside_move c r = None"
  shows "move_queue st = q \<Longrightarrow> seq_timeout st = None
     \<Longrightarrow> pending_status st = [] \<or> snd (last (pending_status st))
     \<Longrightarrow> in_flight st = None
     \<Longrightarrow> trace (sequential_completions c cs (move_next c now st))
          = trace st @ sequential_spec q (map fst cs)"
proof (induction q arbitrary: st cs now)
  case Nil
  then have "move_next c now st = done_moving True st"
    by (simp add: move_next_exhausted)
  moreover have "in_flight (done_moving True st) = None"
    using Nil.prems by simp
  ultimately show ?case
    by (simp add: no_completion_without_move)
next
  case (Cons rp q)
  obtain r p where rp: "rp = (r, p)" by (cases rp)
  have none: "remaining c now st = None"
    using Cons.prems(2) by (simp add: remaining_def)
  define st2 where "st2 = st\<lparr>move_queue := q, pending_status := pending_status st @ [(r, False)],
                 trace := trace st @ [MoveRequested r p None]\<rparr>"
  have step: "move_next c now st = st2"
    using move_next_dispatch_later [of st r p q c now] Cons.prems rp later none
    by (simp add: st2_def spent_def)
  show ?case
  proof (cases cs)
    case Nil
    then show ?thesis using step rp by (simp add: st2_def)
  next
    case (Cons x cs')
    obtain success now' where x: "x = (success, now')" by (cases x)
    define st3 where "st3 = status_finished r success st2"
    have fl: "in_flight st2 = Some r"
      by (simp add: st2_def in_flight_def)
    have unfold: "sequential_completions c cs (move_next c now st)
        = sequential_completions c cs' (move_next c now' st3)"
      using step Cons x fl by (simp add: st3_def)
    have st3: "move_queue st3 = q" "seq_timeout st3 = None"
      "pending_status st3 \<noteq> []" "snd (last (pending_status st3)) = success"
      "trace st3 = trace st @ [MoveRequested r p None, MoveFinished r success]"
      using Cons.prems by (simp_all add: st3_def st2_def status_finished_def)
    have idle: "in_flight st3 = None"
      by (simp add: in_flight_def st3(5))
    show ?thesis
    proof (cases success)
      case True
      with st3 idle have "trace (sequential_completions c cs' (move_next c now' st3))
          = trace st3 @ sequential_spec q (map fst cs')"
        by (intro Cons.IH) simp_all
      with unfold st3 True rp Cons x show ?thesis by simp
    next
      case False
      with st3 have "move_next c now' st3 = done_moving False st3"
        by (simp add: move_next_failed)
      with unfold st3 idle False rp Cons x show ?thesis
        by (simp add: no_completion_without_move)
    qed
  qed
qed

lemma sequential_move_follows_spec:
  assumes "\<And>r. completes_inside_move c r = None" and "in_flight st = None"
  shows "trace (sequential_completions c cs (sequential_move c real_pos None t0 now st))
     = trace st @ sequential_spec (zip (real_positioners st) real_pos) (map fst cs)"
  unfolding sequential_move_def
  using assms by (subst sequential_chain) (simp_all add: in_flight_def)

theorem sequential_move_follows_spec_witness:
  "in_flight ab_idle = None
   \<and> trace (sequential_completions pseudo1x2 [(False, 1), (True, 2)]
             (sequential_move pseudo1x2 [10, 20] None 0 0 ab_idle))
     = [MoveRequested ''A'' 10 None, MoveFinished ''A'' False, DoneMoving False]
   \<and> trace (sequential_completions pseudo1x2 [(True, 1), (True, 2)]
             (sequential_move pseudo1x2 [10, 20] None 0 0 ab_idle))
     = [MoveRequested ''A'' 10 None, MoveFinished ''A'' True,
        MoveRequested ''B'' 20 None, MoveFinished ''B'' True, DoneMoving True]"
proof -
  have idle: "in_flight ab_idle = None"
    by (simp add: in_flight_def ab_idle_def)
  have later: "completes_inside_move pseudo1x2 r = None" for r
    by (simp add: pseudo1x2_def)
  show ?thesis
    by (simp only: sequential_move_follows_spec [OF later idle]) (simp add: idle, simp add: ab_idle_def)
qed

text \<open>
  What \<open>sequential_spec\<close> says in the two cases of the policy: when every move
  succeeds, all of the queue is requested in order and the group move ends as a success;
  when move \<open>k\<close> is the first to fail, the moves up to \<open>k\<close> are requested, none
  after it, and the group move ends as a failure.
\<close>

lemma sequential_spec_all_succeed:
  "length queue \<le> length outcomes \<Longrightarrow> \<forall>j < length queue. outcomes ! j
     \<Longrightarrow> sequential_spec queue outcomes
          = concat (map (\<lambda>(r, p). [MoveRequested r p None, MoveFinished r True]) queue)
              @ [DoneMoving True]"
proof (induction queue outcomes rule: sequential_spec.induct)
  case (1 outcomes)
  then show ?case by simp
next
  case (2 r p queue)
  then show ?case by simp
next
  case (3 r p queue success outcomes)
  from "3.prems"(2) have first: "success" by auto
  have "\<forall>j < length queue. outcomes ! j"
  proof (intro allI impI)
    fix j assume "j < length queue"
    then have "Suc j < length ((r, p) # queue)" by simp
    with "3.prems"(2) have "(success # outcomes) ! Suc j" by blast
    then show "outcomes ! j" by simp
  qed
  with "3.IH" first "3.prems"(1) show ?case by simp
qed

lemma sequential_spec_first_failure:
  "k < length queue \<Longrightarrow> k < length outcomes \<Longrightarrow> \<not> outcomes ! k \<Longrightarrow> \<forall>j < k. outcomes ! j
     \<Longrightarrow> sequential_spec queue outcomes
          = concat (map (\<lambda>(r, p). [MoveRequested r p None, MoveFinished r True]) (take k queue))
              @ [MoveRequested (fst (queue ! k)) (snd (queue ! k)) None,
                 MoveFinished (fst (queue ! k)) False, DoneMoving False]"
proof (induction queue outcomes arbitrary: k rule: sequential_spec.induct)
  case (1 outcomes)
  then show ?case by simp
next
  case (2 r p queue)
  then show ?case by simp
next
  case (3 r p queue success outcomes)
  show ?case
  proof (cases k)
    case 0
    with "3.prems"(3) show ?thesis by simp
  next
    case (Suc k')
    with "3.prems"(4) have first: "success" by auto
    have before: "\<forall>j < k'. outcomes ! j"
    proof (intro allI impI)
      fix j assume "j < k'"
      then have "Suc j < k" using Suc by simp
      with "3.prems"(4) have "(success # outcomes) ! Suc j" by blast
      then show "outcomes ! j" by simp
    qed
    have "sequential_spec queue outcomes
          = concat (map (\<lambda>(r, p). [MoveRequested r p None, MoveFinished r True]) (take k' queue))
              @ [MoveRequested (fst (queue ! k')) (snd (queue ! k')) None,
                 MoveFinished (fst (queue ! k')) False, DoneMoving False]"
      using "3.prems"(1,2,3) Suc first before by (intro "3.IH") simp_all
    with first Suc show ?thesis by simp
  qed
qed

text \<open>
  C3. The specification asks that in sequential mode no further axis is dispatched once
  an axis's completion has reported failure, and that the group move then ends as a
  failure. \<^verbatim>\<open>move_next\<close> tests the success flag of the last status in
  \<^verbatim>\<open>pending_status\<close>, and a status is appended only after \<^verbatim>\<open>real.move\<close> has
  returned; the lock around it is re-entrant. When a real positioner finishes its move
  and calls the callback before \<^verbatim>\<open>real.move\<close> returns, the test does not see that
  move's status. Here both moves finish that early and A's fails: B is dispatched after
  A's failure and the group move ends as a success. With only A's move finishing that
  early, B is dispatched after A's failure all the same.
\<close>

theorem sequential_failure_inside_move_is_missed:
  "trace (snd (move pseudo1x2_immediate [5] None 0 0 ab_idle))
     = [MoveRequested ''A'' (- 5) None, MoveFinished ''A'' False,
        MoveRequested ''B'' (- 5) None, MoveFinished ''B'' True, DoneMoving True]
   \<and> trace (snd (move pseudo1x2_A_immediate [5] None 0 0 ab_idle))
     = [MoveRequested ''A'' (- 5) None, MoveFinished ''A'' False, MoveRequested ''B'' (- 5) None]"
  by (simp add: move_def check_value_def setup_move_def sequential_move_def move_next.simps
      done_moving_def pseudo1x2_immediate_def pseudo1x2_A_immediate_def pseudo1x2_def ab_idle_def)

text \<open>
  The start time and the timeout that the closure captured stay what they were when the
  queue was filled, through every call of \<^verbatim>\<open>move_next\<close> of the group move.
\<close>

lemma budget_of_the_group_move:
  "seq_t0 (sequential_completions c cs (sequential_move c real_pos timeout t0 now st)) = t0
   \<and> seq_timeout (sequential_completions c cs (sequential_move c real_pos timeout t0 now st)) = timeout"
proof -
  define st0 where "st0 = st\<lparr>move_queue := zip (real_positioners st) real_pos,
           pending_status := [], seq_t0 := t0, seq_timeout := timeout\<rparr>"
  have "extends st0 (move_next c now st0)"
    by (rule extends_move_next)
  moreover have "extends (move_next c now st0) (sequential_completions c cs (move_next c now st0))"
    by (rule extends_sequential_completions)
  ultimately have "extends st0 (sequential_completions c cs (move_next c now st0))"
    by (rule extends_trans)
  then show ?thesis
    by (simp add: extends_def sequential_move_def st0_def)
qed

text \<open>
  C4. In a sequential group move with timeout \<open>T\<close>, take any call of \<^verbatim>\<open>move_next\<close>
  that gets as far as the next pair of the queue, at clock \<open>now\<close>. It computes
  \<open>T - (now - t0)\<close> in the arithmetic of Python floats, \<open>t0\<close> being the clock when the
  queue was filled. When the result is negative it hands out no move and raises the
  terminal completion as a failure. Otherwise, a result of exactly zero included, the
  next thing it does is hand the move to the real positioner with that result as its
  timeout.
\<close>

theorem sequential_timeout_is_remaining_budget:
  assumes ready: "pending_status st = [] \<or> snd (last (pending_status st))"
    and queued: "move_queue st = (r, p) # q"
    and budget: "seq_timeout st = Some T"
  shows "(fsub c T (fsub c now (seq_t0 st)) < 0 \<longrightarrow>
            move_next c now st = done_moving False (st\<lparr>move_queue := q\<rparr>))
       \<and> (\<not> fsub c T (fsub c now (seq_t0 st)) < 0 \<longrightarrow>
            (\<exists>later. trace (move_next c now st)
               = trace st @ MoveRequested r p (Some (fsub c T (fsub c now (seq_t0 st)))) # later))"
proof (intro conjI impI)
  have rem: "remaining c now st = Some (fsub c T (fsub c now (seq_t0 st)))"
    using budget by (simp add: remaining_def)
  {
    assume "fsub c T (fsub c now (seq_t0 st)) < 0"
    then have "spent (remaining c now st)"
      by (simp add: rem spent_def)
    then show "move_next c now st = done_moving False (st\<lparr>move_queue := q\<rparr>)"
      by (rule move_next_spent [OF ready queued])
  }
  {
    assume "\<not> fsub c T (fsub c now (seq_t0 st)) < 0"
    then have left: "\<not> spent (remaining c now st)"
      by (simp add: rem spent_def)
    show "\<exists>later. trace (move_next c now st)
               = trace st @ MoveRequested r p (Some (fsub c T (fsub c now (seq_t0 st)))) # later"
    proof (cases "completes_inside_move c r")
      case None
      show ?thesis
        unfolding move_next_dispatch_later [OF ready queued left None] by (simp add: rem)
    next
      case (Some sn)
      obtain success now' where sn: "sn = (success, now')" by (cases sn)
      define st2 where "st2 = st\<lparr>move_queue := q,
                 trace := trace st @ [MoveRequested r p (remaining c now st), MoveFinished r success]\<rparr>"
      have step: "move_next c now st
              = (move_next c now' st2)\<lparr>pending_status := pending_status (move_next c now' st2) @ [(r, success)]\<rparr>"
        using move_next_dispatch_inside [OF ready queued left] Some sn by (simp add: st2_def)
      have "extends st2 (move_next c now' st2)"
        by (rule extends_move_next)
      then obtain more where "trace (move_next c now' st2) = trace st2 @ more"
        by (auto simp: extends_def)
      then have "trace (move_next c now st)
          = trace st @ MoveRequested r p (Some (fsub c T (fsub c now (seq_t0 st))))
              # (MoveFinished r success # more)"
        unfolding step by (simp add: st2_def rem)
      then show ?thesis by blast
    qed
  }
qed

theorem sequential_timeout_is_remaining_budget_witness:
  "move_queue ab_first_done = [(''B'', 20)]
   \<and> seq_timeout ab_first_done = Some 5 \<and> seq_t0 ab_first_done = 100
   \<and> move_next pseudo1x2 106 ab_first_done = done_moving False (ab_first_done\<lparr>move_queue := []\<rparr>)
   \<and> (\<exists>later. trace (move_next pseudo1x2 103 ab_first_done)
         = trace ab_first_done @ MoveRequested ''B'' 20 (Some 2) # later)"
proof -
  have st: "pending_status ab_first_done = [] \<or> snd (last (pending_status ab_first_done))"
    "move_queue ab_first_done = (''B'', 20) # []" "seq_timeout ab_first_done = Some 5"
    "seq_t0 ab_first_done = 100"
    by (simp_all add: ab_first_done_def status_finished_def sequential_move_def move_next.simps
        pseudo1x2_def ab_idle_def)
  have sub: "fsub pseudo1x2 a b = a - b" for a b
    by (simp add: pseudo1x2_def)
  from sequential_timeout_is_remaining_budget [OF st(1,2,3), of pseudo1x2 106]
  have late: "move_next pseudo1x2 106 ab_first_done = done_moving False (ab_first_done\<lparr>move_queue := []\<rparr>)"
    by (simp add: sub st(4))
  from sequential_timeout_is_remaining_budget [OF st(1,2,3), of pseudo1x2 103]
  have early: "\<exists>later. trace (move_next pseudo1x2 103 ab_first_done)
         = trace ab_first_done @ MoveRequested ''B'' 20 (Some 2) # later"
    by (simp add: sub st(4))
  from st late early show ?thesis by simp
qed

text \<open>
  The claim as the specification words it does not hold where the budget is used up and
  the computed remainder is not negative. With a budget of 5 from clock 100 and A's
  completion arriving at 105, nothing is left, and B's move is handed out with timeout 0.
  With a budget of 1 from a start at the double 0.1 and A's completion arriving at the
  double 1.1, more than 1 has elapsed; the subtraction of doubles gives an elapsed time
  of 1 and a remaining budget of 0, and B's move is handed out as well.
\<close>

theorem used_up_budget_step_is_dispatched:
  "trace (sequential_completions pseudo1x2 [(True, 105)]
            (sequential_move pseudo1x2 [10, 20] (Some 5) 100 101 ab_idle))
     = [MoveRequested ''A'' 10 (Some 4), MoveFinished ''A'' True, MoveRequested ''B'' 20 (Some 0)]
   \<and> 1 < double_1_1 - double_0_1
   \<and> trace (sequential_completions pseudo1x2_rounding [(True, double_1_1)]
            (sequential_move pseudo1x2_rounding [10, 20] (Some 1) double_0_1 double_0_1 ab_idle))
     = [MoveRequested ''A'' 10 (Some 1), MoveFinished ''A'' True, MoveRequested ''B'' 20 (Some 0)]"
  by (simp add: sequential_move_def move_next.simps status_finished_def done_moving_def in_flight_def
      pseudo1x2_rounding_def pseudo1x2_def ab_idle_def double_0_1_def double_1_1_def Let_def)

text \<open>A completion late enough for the computed budget to be negative finds it spent.\<close>

lemma sequential_budget_exhausted:
  "trace (sequential_completions pseudo1x2 [(True, 106)]
            (sequential_move pseudo1x2 [10, 20] (Some 5) 100 101 ab_idle))
     = [MoveRequested ''A'' 10 (Some 4), MoveFinished ''A'' True, DoneMoving False]"
  by (simp add: sequential_move_def move_next.simps status_finished_def done_moving_def in_flight_def
      pseudo1x2_def ab_idle_def)

subsection \<open>Concurrent moves\<close>

lemma concurrent_barrier:
  "distinct (real_waiting st) \<Longrightarrow> distinct (map fst cs)
     \<Longrightarrow> set (map fst cs) \<subseteq> set (real_waiting st)
     \<Longrightarrow> trace (concurrent_completions cs st)
          = trace st @ map (\<lambda>(r, b). MoveFinished r b) cs
              @ (if set (map fst cs) = set (real_waiting st) \<and> cs \<noteq> [] then [DoneMoving True] else [])"
proof (induction cs arbitrary: st)
  case Nil
  then show ?case by simp
next
  case (Cons c cs)
  obtain r b where c: "c = (r, b)" by (cases c)
  define w where "w = real_waiting st"
  define st1 where "st1 = st\<lparr>trace := trace st @ [MoveFinished r b]\<rparr>"
  have w: "distinct w" "r \<in> set w" "r \<notin> set (map fst cs)" "set (map fst cs) \<subseteq> set w - {r}"
    "distinct (map fst cs)"
    using Cons.prems c by (auto simp: w_def)
  have rem: "set (remove1 r w) = set w - {r}"
    using w(1) by simp
  have unfold: "concurrent_completions (c # cs) st = concurrent_completions cs (real_finished r st1)"
    by (simp add: c st1_def)
  show ?case
  proof (cases "remove1 r w = []")
    case True
    with rem have only: "set w - {r} = {}" by simp
    with w(4) have cs: "cs = []" by simp
    from only w(2) have "set w = {r}" by blast
    moreover have "real_finished r st1 = st1\<lparr>real_waiting := [], trace := trace st1 @ [DoneMoving True]\<rparr>"
      using True w(2) by (simp add: real_finished_def done_moving_def st1_def w_def)
    ultimately show ?thesis
      using unfold cs c by (simp add: st1_def w_def)
  next
    case False
    define st2 where "st2 = st1\<lparr>real_waiting := remove1 r w\<rparr>"
    have fin: "real_finished r st1 = st2"
      using False w(2) by (simp add: real_finished_def st1_def st2_def w_def)
    have st2: "real_waiting st2 = remove1 r w" "trace st2 = trace st @ [MoveFinished r b]"
      by (simp_all add: st2_def st1_def)
    have "trace (concurrent_completions cs st2)
          = trace st2 @ map (\<lambda>(r, b). MoveFinished r b) cs
              @ (if set (map fst cs) = set (real_waiting st2) \<and> cs \<noteq> [] then [DoneMoving True] else [])"
      using w rem st2 by (intro Cons.IH) simp_all
    moreover have "(set (map fst cs) = set (real_waiting st2) \<and> cs \<noteq> [])
        \<longleftrightarrow> (set (map fst (c # cs)) = set (real_waiting st) \<and> c # cs \<noteq> [])"
    proof -
      have "set (remove1 r w) \<noteq> {}" using False by (simp del: set_remove1_eq)
      with rem have ne: "set w - {r} \<noteq> {}" by simp
      have "set (map fst cs) = set w - {r} \<longleftrightarrow> insert r (set (map fst cs)) = set w"
        using w(2,3) by auto
      moreover have "set (map fst cs) = set w - {r} \<Longrightarrow> cs \<noteq> []"
        using ne by auto
      ultimately show ?thesis
        using st2(1) rem c by (auto simp: w_def)
    qed
    ultimately show ?thesis
      using unfold fin st2 c by simp
  qed
qed


text \<open>
  When every completion arrives after \<^verbatim>\<open>real.move\<close> has returned, the loop of
  \<^verbatim>\<open>_concurrent_move\<close> only hands out the moves.
\<close>

lemma concurrent_dispatch_later:
  assumes "\<And>r. completes_inside_move c r = None"
  shows "concurrent_dispatch c timeout zs st
           = st\<lparr>trace := trace st @ map (\<lambda>(r, v). MoveRequested r v timeout) zs\<rparr>"
proof (induction zs arbitrary: st)
  case Nil
  show ?case by simp
next
  case (Cons z zs)
  obtain r v where z: "z = (r, v)" by (cases z)
  show ?case
    by (simp add: z assms Cons.IH)
qed

lemma setup_move_concurrent:
  assumes "\<And>r. completes_inside_move c r = None"
  shows "concurrent st \<Longrightarrow> forward c pseudo_pos = Inr real_pos
     \<Longrightarrow> setup_move c pseudo_pos timeout t0 now st =
        (Inr (), st\<lparr>real_waiting := real_positioners st,
                   trace := trace st @ map (\<lambda>(r, v). MoveRequested r v timeout)
                                         (zip (real_positioners st) real_pos)\<rparr>)"
  by (simp add: setup_move_def concurrent_move_def concurrent_dispatch_later [OF assms])

text \<open>
  In a concurrent group move whose completions arrive after the moves have been handed
  out, the terminal completion is raised once, right after the last real axis's
  completion has been processed, whatever the order of arrival; the success flags of the
  completions do not enter it.
\<close>

lemma concurrent_done_after_last_completion:
  assumes "\<And>r. completes_inside_move c r = None"
    and "concurrent st" and "forward c pseudo_pos = Inr real_pos"
    and "distinct (real_positioners st)" and "distinct (map fst cs)"
    and "set (map fst cs) \<subseteq> set (real_positioners st)" and "real_positioners st \<noteq> []"
  shows "trace (concurrent_completions cs (snd (setup_move c pseudo_pos timeout t0 now st)))
           = trace st @ map (\<lambda>(r, v). MoveRequested r v timeout) (zip (real_positioners st) real_pos)
               @ map (\<lambda>(r, b). MoveFinished r b) cs
               @ (if set (map fst cs) = set (real_positioners st) then [DoneMoving True] else [])"
proof -
  define st1 where "st1 = snd (setup_move c pseudo_pos timeout t0 now st)"
  have st1: "real_waiting st1 = real_positioners st"
    "trace st1 = trace st @ map (\<lambda>(r, v). MoveRequested r v timeout) (zip (real_positioners st) real_pos)"
    using assms(2,3) by (simp_all add: st1_def setup_move_concurrent [OF assms(1)])
  have ne: "set (map fst cs) = set (real_positioners st) \<Longrightarrow> cs \<noteq> []"
    using assms(7) by auto
  have "trace (concurrent_completions cs st1)
          = trace st1 @ map (\<lambda>(r, b). MoveFinished r b) cs
              @ (if set (map fst cs) = set (real_waiting st1) \<and> cs \<noteq> [] then [DoneMoving True] else [])"
    using assms(4,5,6) st1(1) by (intro concurrent_barrier) simp_all
  then show ?thesis
    using st1 ne unfolding st1_def by auto
qed

theorem concurrent_done_after_last_completion_witness:
  "concurrent ab_concurrent
   \<and> trace (concurrent_completions [(''B'', True)]
        (snd (setup_move pseudo1x2 [5] None 0 0 ab_concurrent)))
       = [MoveRequested ''A'' (- 5) None, MoveRequested ''B'' (- 5) None, MoveFinished ''B'' True]
   \<and> trace (concurrent_completions [(''B'', True), (''A'', True)]
        (snd (setup_move pseudo1x2 [5] None 0 0 ab_concurrent)))
       = [MoveRequested ''A'' (- 5) None, MoveRequested ''B'' (- 5) None, MoveFinished ''B'' True,
          MoveFinished ''A'' True, DoneMoving True]"
proof -
  have later: "completes_inside_move pseudo1x2 r = None" for r
    by (simp add: pseudo1x2_def)
  have conc: "concurrent ab_concurrent"
    and fwd: "forward pseudo1x2 [5] = Inr [- 5, - 5]"
    and reals: "distinct (real_positioners ab_concurrent)" "real_positioners ab_concurrent \<noteq> []"
    by (simp_all add: ab_concurrent_def ab_idle_def pseudo1x2_def)
  have one: "distinct (map fst [(''B'', True)])"
    "set (map fst [(''B'', True)]) \<subseteq> set (real_positioners ab_concurrent)"
    and two: "distinct (map fst [(''B'', True), (''A'', True)])"
    "set (map fst [(''B'', True), (''A'', True)]) \<subseteq> set (real_positioners ab_concurrent)"
    by (simp_all add: ab_concurrent_def ab_idle_def)
  have first: "trace (concurrent_completions [(''B'', True)]
        (snd (setup_move pseudo1x2 [5] None 0 0 ab_concurrent)))
       = [MoveRequested ''A'' (- 5) None, MoveRequested ''B'' (- 5) None, MoveFinished ''B'' True]"
    by (subst concurrent_done_after_last_completion [OF later conc fwd reals(1) one reals(2)])
      (simp add: ab_concurrent_def ab_idle_def)
  have second: "trace (concurrent_completions [(''B'', True), (''A'', True)]
        (snd (setup_move pseudo1x2 [5] None 0 0 ab_concurrent)))
       = [MoveRequested ''A'' (- 5) None, MoveRequested ''B'' (- 5) None, MoveFinished ''B'' True,
          MoveFinished ''A'' True, DoneMoving True]"
    by (subst concurrent_done_after_last_completion [OF later conc fwd reals(1) two reals(2)])
      (auto simp: ab_concurrent_def ab_idle_def)
  from conc first second show ?thesis by blast
qed

text \<open>
  C1. The specification asks that a concurrent group move in which a real axis's move fails ends
  with a failed terminal completion. On the code it does not: \<^verbatim>\<open>_real_finished\<close>
  takes no success flag and calls \<^verbatim>\<open>_done_moving()\<close> with its default. Here axis A
  fails, axis B succeeds, and the terminal completion is raised as success. (The
  sequential sibling \<^verbatim>\<open>move_next\<close> reads the success flag and raises failure.)
\<close>

theorem concurrent_failure_ends_as_success:
  "trace (concurrent_completions [(''A'', False), (''B'', True)]
            (snd (move pseudo1x2 [5] None 0 0 ab_concurrent)))
     = [MoveRequested ''A'' (- 5) None, MoveRequested ''B'' (- 5) None,
        MoveFinished ''A'' False, MoveFinished ''B'' True, DoneMoving True]"
  by (simp add: move_def check_value_def setup_move_def concurrent_move_def real_finished_def
      done_moving_def pseudo1x2_def ab_concurrent_def ab_idle_def Let_def)

subsection \<open>Position and readback\<close>

text \<open>
  C2. The specification asks that \<^verbatim>\<open>position\<close> fails with DisconnectedError while a cache
  entry is unknown. On the code the check for None is in \<^verbatim>\<open>_update_position\<close>
  only; \<^verbatim>\<open>position\<close> hands the cache to \<^verbatim>\<open>inverse\<close> as it is. Here real
  axis B has not reported, and \<^verbatim>\<open>position\<close> returns a pseudo position computed from
  A alone, where \<^verbatim>\<open>_update_position\<close> raises DisconnectedError.
\<close>

theorem position_from_partial_cache:
  "position pseudo1x2 ab_half_connected = Inr [- 2]
   \<and> fst (update_position pseudo1x2 ab_half_connected) = Inl DisconnectedError"
  by (simp add: position_def update_position_def real_position_def pseudo1x2_def
      ab_half_connected_def ab_idle_def)

subsection \<open>Validation\<close>

lemma check_limits_Cons:
  "check_limits ((s, p) # rest) =
     (if fst (s_limits s) < snd (s_limits s) \<and> (p < fst (s_limits s) \<or> snd (s_limits s) < p)
      then Some (OutsidePseudoLimits (s_name s) (fst (s_limits s)) p (snd (s_limits s)))
      else check_limits rest)"
  by (auto simp: case_prod_beta)

lemma check_limits_None:
  "check_limits zs = None \<longleftrightarrow>
     (\<forall>z \<in> set zs. \<not> (fst (s_limits (fst z)) < snd (s_limits (fst z))
                          \<and> (snd z < fst (s_limits (fst z)) \<or> snd (s_limits (fst z)) < snd z)))"
proof (induction zs)
  case Nil
  then show ?case by simp
next
  case (Cons z zs)
  obtain s p where z: "z = (s, p)" by (cases z)
  show ?case
    unfolding z check_limits_Cons using Cons.IH by auto
qed

lemma check_limits_Some:
  "check_limits zs = Some e \<Longrightarrow> \<exists>nm lo p hi. e = OutsidePseudoLimits nm lo p hi"
proof (induction zs)
  case Nil
  then show ?case by simp
next
  case (Cons z zs)
  obtain s p where z: "z = (s, p)" by (cases z)
  from Cons.prems Cons.IH show ?case
    unfolding z check_limits_Cons by (auto split: if_splits)
qed

lemma check_reals_None:
  "check_reals c zs = None \<longleftrightarrow> (\<forall>k < length zs. real_check_value c (fst (zs ! k)) (snd (zs ! k)) = None)"
proof (induction zs)
  case Nil
  then show ?case by simp
next
  case (Cons z zs)
  obtain r p where z: "z = (r, p)" by (cases z)
  show ?case
    using Cons.IH z by (auto simp: nth_Cons All_less_Suc2 split: option.splits nat.splits)
qed

lemma check_reals_Some:
  "check_reals c zs = Some x \<longleftrightarrow>
     (\<exists>k < length zs. real_check_value c (fst (zs ! k)) (snd (zs ! k)) = Some x
        \<and> (\<forall>j < k. real_check_value c (fst (zs ! j)) (snd (zs ! j)) = None))"
proof (induction zs)
  case Nil
  then show ?case by simp
next
  case (Cons z zs)
  obtain r p where z: "z = (r, p)" by (cases z)
  show ?case
  proof (cases "real_check_value c r p")
    case None
    have "(\<exists>k < length (z # zs). real_check_value c (fst ((z # zs) ! k)) (snd ((z # zs) ! k)) = Some x
        \<and> (\<forall>j < k. real_check_value c (fst ((z # zs) ! j)) (snd ((z # zs) ! j)) = None))
      \<longleftrightarrow> (\<exists>k < length zs. real_check_value c (fst (zs ! k)) (snd (zs ! k)) = Some x
        \<and> (\<forall>j < k. real_check_value c (fst (zs ! j)) (snd (zs ! j)) = None))"
      (is "?L \<longleftrightarrow> ?R")
    proof
      assume ?L
      then obtain k where k: "k < length (z # zs)"
        "real_check_value c (fst ((z # zs) ! k)) (snd ((z # zs) ! k)) = Some x"
        "\<forall>j < k. real_check_value c (fst ((z # zs) ! j)) (snd ((z # zs) ! j)) = None"
        by blast
      from k(2) None z obtain k' where k': "k = Suc k'"
        by (cases k) auto
      have "\<forall>j < k'. real_check_value c (fst (zs ! j)) (snd (zs ! j)) = None"
      proof (intro allI impI)
        fix j assume "j < k'"
        then have "Suc j < k" using k' by simp
        with k(3) show "real_check_value c (fst (zs ! j)) (snd (zs ! j)) = None"
          by fastforce
      qed
      with k k' show ?R by auto
    next
      assume ?R
      then obtain k where k: "k < length zs"
        "real_check_value c (fst (zs ! k)) (snd (zs ! k)) = Some x"
        "\<forall>j < k. real_check_value c (fst (zs ! j)) (snd (zs ! j)) = None"
        by blast
      have "\<forall>j < Suc k. real_check_value c (fst ((z # zs) ! j)) (snd ((z # zs) ! j)) = None"
        using k(3) None z by (auto simp: nth_Cons split: nat.splits)
      with k(1,2) show ?L
        by (intro exI [of _ "Suc k"]) simp
    qed
    with Cons.IH None z show ?thesis by simp
  next
    case (Some y)
    have "(\<exists>k < length (z # zs). real_check_value c (fst ((z # zs) ! k)) (snd ((z # zs) ! k)) = Some x
        \<and> (\<forall>j < k. real_check_value c (fst ((z # zs) ! j)) (snd ((z # zs) ! j)) = None))
      \<longleftrightarrow> y = x"
    proof
      assume "\<exists>k < length (z # zs). real_check_value c (fst ((z # zs) ! k)) (snd ((z # zs) ! k)) = Some x
        \<and> (\<forall>j < k. real_check_value c (fst ((z # zs) ! j)) (snd ((z # zs) ! j)) = None)"
      then obtain k where k: "real_check_value c (fst ((z # zs) ! k)) (snd ((z # zs) ! k)) = Some x"
        "\<forall>j < k. real_check_value c (fst ((z # zs) ! j)) (snd ((z # zs) ! j)) = None"
        by blast
      have "k = 0"
      proof (rule ccontr)
        assume "k \<noteq> 0"
        then have "0 < k" by simp
        with k(2) have "real_check_value c (fst ((z # zs) ! 0)) (snd ((z # zs) ! 0)) = None" by blast
        with Some z show False by simp
      qed
      with k(1) Some z show "y = x" by simp
    next
      assume "y = x"
      with Some z show "\<exists>k < length (z # zs). real_check_value c (fst ((z # zs) ! k)) (snd ((z # zs) ! k)) = Some x
        \<and> (\<forall>j < k. real_check_value c (fst ((z # zs) ! j)) (snd ((z # zs) ! j)) = None)"
        by (intro exI [of _ 0]) simp
    qed
    with Some z show ?thesis by auto
  qed
qed


lemma check_limits_zip:
  assumes "length pseudo_pos = length ps"
  shows "check_limits (zip ps pseudo_pos) = None
           \<longleftrightarrow> (\<forall>i < length pseudo_pos. \<not> outside_limits (ps ! i) (pseudo_pos ! i))"
proof -
  have "(\<forall>z \<in> set (zip ps pseudo_pos). \<not> outside_limits (fst z) (snd z))
          \<longleftrightarrow> (\<forall>i < length pseudo_pos. \<not> outside_limits (ps ! i) (pseudo_pos ! i))"
    using assms by (auto simp: set_zip)
  then show ?thesis
    by (simp add: check_limits_None outside_limits_def case_prod_beta)
qed

lemma unbounded_axis_accepts:
  "snd (s_limits pseudo) \<le> fst (s_limits pseudo) \<Longrightarrow> \<not> outside_limits pseudo pos"
  by (simp add: outside_limits_def case_prod_beta)

text \<open>
  C6. For a candidate of the right arity, \<^verbatim>\<open>check_value\<close> raises the out-of-range
  error of the pseudo limits if and only if some pseudo axis has a limit pair with
  high > low and the candidate's scalar for it outside [low, high] (an axis with
  high \<le> low rejects nothing). When no axis rejects, \<^verbatim>\<open>forward\<close> is applied: what it
  raises is raised; otherwise each real axis's own \<^verbatim>\<open>check_value\<close> is called on its
  computed scalar, in order, the call succeeds exactly when all of them accept, and the
  exception of the first one that raises is the exception of the call, unchanged.
\<close>

theorem check_value_limits:
  assumes arity: "length pseudo_pos = length (pseudo_positioners st)"
  shows "((\<exists>nm lo p hi. check_value c st pseudo_pos = Inl (OutsidePseudoLimits nm lo p hi))
            \<longleftrightarrow> (\<exists>i < length pseudo_pos. outside_limits (pseudo_positioners st ! i) (pseudo_pos ! i)))
       \<and> ((\<forall>i < length pseudo_pos. \<not> outside_limits (pseudo_positioners st ! i) (pseudo_pos ! i)) \<longrightarrow>
            (case forward c pseudo_pos of
               Inl x \<Rightarrow> check_value c st pseudo_pos = Inl (Raised x)
             | Inr real_pos \<Rightarrow>
                 (check_value c st pseudo_pos = Inr () \<longleftrightarrow>
                    (\<forall>k < min (length (real_positioners st)) (length real_pos).
                       real_check_value c (real_positioners st ! k) (real_pos ! k) = None))
               \<and> (\<forall>x. check_value c st pseudo_pos = Inl (Raised x) \<longleftrightarrow>
                    (\<exists>k < min (length (real_positioners st)) (length real_pos).
                       real_check_value c (real_positioners st ! k) (real_pos ! k) = Some x
                       \<and> (\<forall>j < k. real_check_value c (real_positioners st ! j) (real_pos ! j) = None)))))"
proof (cases "check_limits (zip (pseudo_positioners st) pseudo_pos)")
  case None
  then have inside: "\<forall>i < length pseudo_pos. \<not> outside_limits (pseudo_positioners st ! i) (pseudo_pos ! i)"
    using check_limits_zip [OF arity] by simp
  have no_limit_error: "check_value c st pseudo_pos \<noteq> Inl (OutsidePseudoLimits nm lo p hi)" for nm lo p hi
    using None arity by (simp add: check_value_def split: sum.splits option.splits)
  have rest: "case forward c pseudo_pos of
               Inl x \<Rightarrow> check_value c st pseudo_pos = Inl (Raised x)
             | Inr real_pos \<Rightarrow>
                 (check_value c st pseudo_pos = Inr () \<longleftrightarrow>
                    (\<forall>k < min (length (real_positioners st)) (length real_pos).
                       real_check_value c (real_positioners st ! k) (real_pos ! k) = None))
               \<and> (\<forall>x. check_value c st pseudo_pos = Inl (Raised x) \<longleftrightarrow>
                    (\<exists>k < min (length (real_positioners st)) (length real_pos).
                       real_check_value c (real_positioners st ! k) (real_pos ! k) = Some x
                       \<and> (\<forall>j < k. real_check_value c (real_positioners st ! j) (real_pos ! j) = None)))"
  proof (cases "forward c pseudo_pos")
    case (Inl x)
    then show ?thesis using None arity by (simp add: check_value_def)
  next
    case (Inr real_pos)
    define zs where "zs = zip (real_positioners st) real_pos"
    have cv: "check_value c st pseudo_pos =
        (case check_reals c zs of Some x \<Rightarrow> Inl (Raised x) | None \<Rightarrow> Inr ())"
      using None arity Inr by (simp add: check_value_def zs_def)
    have ok: "check_value c st pseudo_pos = Inr () \<longleftrightarrow> check_reals c zs = None"
      using cv by (simp split: option.splits)
    have bad: "check_value c st pseudo_pos = Inl (Raised x) \<longleftrightarrow> check_reals c zs = Some x" for x
      using cv by (simp split: option.splits)
    have len: "length zs = min (length (real_positioners st)) (length real_pos)"
      by (simp add: zs_def)
    have nth: "k < length zs \<Longrightarrow> fst (zs ! k) = real_positioners st ! k \<and> snd (zs ! k) = real_pos ! k" for k
      by (simp add: zs_def)
    have none_iff: "check_reals c zs = None \<longleftrightarrow>
        (\<forall>k < min (length (real_positioners st)) (length real_pos).
            real_check_value c (real_positioners st ! k) (real_pos ! k) = None)"
      unfolding check_reals_None using len nth by auto
    have some_iff: "check_reals c zs = Some x \<longleftrightarrow>
        (\<exists>k < min (length (real_positioners st)) (length real_pos).
            real_check_value c (real_positioners st ! k) (real_pos ! k) = Some x
            \<and> (\<forall>j < k. real_check_value c (real_positioners st ! j) (real_pos ! j) = None))" for x
    proof -
      have "(\<exists>k < length zs. real_check_value c (fst (zs ! k)) (snd (zs ! k)) = Some x
               \<and> (\<forall>j < k. real_check_value c (fst (zs ! j)) (snd (zs ! j)) = None))
          \<longleftrightarrow> (\<exists>k < length zs. real_check_value c (real_positioners st ! k) (real_pos ! k) = Some x
               \<and> (\<forall>j < k. real_check_value c (real_positioners st ! j) (real_pos ! j) = None))"
      proof (intro iffI; elim exE conjE)
        fix k assume k: "k < length zs" "real_check_value c (fst (zs ! k)) (snd (zs ! k)) = Some x"
          "\<forall>j < k. real_check_value c (fst (zs ! j)) (snd (zs ! j)) = None"
        have "\<forall>j < k. real_check_value c (real_positioners st ! j) (real_pos ! j) = None"
        proof (intro allI impI)
          fix j assume j: "j < k"
          then have "j < length zs" using k(1) by simp
          with nth [of j] k(3) j show "real_check_value c (real_positioners st ! j) (real_pos ! j) = None"
            by metis
        qed
        with k(1,2) nth [of k]
        show "\<exists>k < length zs. real_check_value c (real_positioners st ! k) (real_pos ! k) = Some x
               \<and> (\<forall>j < k. real_check_value c (real_positioners st ! j) (real_pos ! j) = None)"
          by auto
      next
        fix k assume k: "k < length zs" "real_check_value c (real_positioners st ! k) (real_pos ! k) = Some x"
          "\<forall>j < k. real_check_value c (real_positioners st ! j) (real_pos ! j) = None"
        have "\<forall>j < k. real_check_value c (fst (zs ! j)) (snd (zs ! j)) = None"
        proof (intro allI impI)
          fix j assume j: "j < k"
          then have "j < length zs" using k(1) by simp
          with nth [of j] k(3) j show "real_check_value c (fst (zs ! j)) (snd (zs ! j)) = None"
            by metis
        qed
        with k(1,2) nth [of k]
        show "\<exists>k < length zs. real_check_value c (fst (zs ! k)) (snd (zs ! k)) = Some x
               \<and> (\<forall>j < k. real_check_value c (fst (zs ! j)) (snd (zs ! j)) = None)"
          by auto
      qed
      then show ?thesis
        unfolding check_reals_Some len by simp
    qed
    show ?thesis
      unfolding Inr sum.case ok bad none_iff some_iff by simp
  qed
  show ?thesis
  proof (intro conjI impI)
    show "(\<exists>nm lo p hi. check_value c st pseudo_pos = Inl (OutsidePseudoLimits nm lo p hi))
            \<longleftrightarrow> (\<exists>i < length pseudo_pos. outside_limits (pseudo_positioners st ! i) (pseudo_pos ! i))"
      using inside no_limit_error by blast
  qed (rule rest)
next
  case (Some e)
  then obtain nm lo p hi where e: "e = OutsidePseudoLimits nm lo p hi"
    using check_limits_Some by blast
  have "check_value c st pseudo_pos = Inl (OutsidePseudoLimits nm lo p hi)"
    using Some e arity by (simp add: check_value_def)
  moreover have "\<exists>i < length pseudo_pos. outside_limits (pseudo_positioners st ! i) (pseudo_pos ! i)"
    using Some check_limits_zip [OF arity] by auto
  ultimately show ?thesis by blast
qed

theorem check_value_limits_witness:
  "length [5 :: real] = length (pseudo_positioners ab_idle)
   \<and> check_value pseudo1x2_limited ab_idle [5] = Inr ()
   \<and> check_value pseudo1x2_limited ab_idle [9] = Inl (Raised (Exn ''LimitError''))
   \<and> (\<exists>nm lo p hi. check_value pseudo1x2_limited ab_idle [11] = Inl (OutsidePseudoLimits nm lo p hi))"
proof -
  have arity: "length [x :: real] = length (pseudo_positioners ab_idle)" for x
    by (simp add: ab_idle_def)
  have five: "check_value pseudo1x2_limited ab_idle [5] = Inr ()"
    by (simp add: check_value_def ab_idle_def pseudo1x2_limited_def pseudo1x2_def)
  have nine: "check_value pseudo1x2_limited ab_idle [9] = Inl (Raised (Exn ''LimitError''))"
    by (simp add: check_value_def ab_idle_def pseudo1x2_limited_def pseudo1x2_def)
  have "\<exists>i < length [11 :: real]. outside_limits (pseudo_positioners ab_idle ! i) ([11] ! i)"
    by (simp add: ab_idle_def outside_limits_def)
  with check_value_limits [where pseudo_pos = "[11]" and st = ab_idle and c = pseudo1x2_limited, OF arity]
  have eleven: "\<exists>nm lo p hi. check_value pseudo1x2_limited ab_idle [11] = Inl (OutsidePseudoLimits nm lo p hi)"
    by blast
  from arity five nine eleven show ?thesis by blast
qed

subsection \<open>Readback\<close>

lemma keys_dict_setitem:
  "k \<in> set (map fst d) \<Longrightarrow> map fst (dict_setitem d k v) = map fst d"
proof (induction d)
  case Nil
  then show ?case by simp
next
  case (Cons a d)
  obtain k' v' where a: "a = (k', v')" by (cases a)
  show ?case
  proof (cases "k' = k")
    case True
    then show ?thesis by (simp add: a)
  next
    case False
    with Cons.prems a have "k \<in> set (map fst d)" by simp
    with Cons.IH False a show ?thesis by simp
  qed
qed

lemma real_pos_update_step:
  assumes keys: "map fst (real_cur_pos st) = real_positioners st"
    and obj: "obj \<in> set (real_positioners st)"
  shows "real_cur_pos (snd (real_pos_update c obj val st)) = dict_setitem (real_cur_pos st) obj val
       \<and> (if None \<in> set (map snd (dict_setitem (real_cur_pos st) obj val))
          then fst (real_pos_update c obj val st) = Inr ()
               \<and> trace (snd (real_pos_update c obj val st)) = trace st
          else (case inverse c (map snd (dict_setitem (real_cur_pos st) obj val)) of
                  Inr p \<Rightarrow> fst (real_pos_update c obj val st) = Inr ()
                           \<and> trace (snd (real_pos_update c obj val st)) = trace st @ [ReadbackChanged p]
                | Inl x \<Rightarrow> fst (real_pos_update c obj val st)
                             = (if x = ExnDisconnected then Inr () else Inl (Raised x))
                           \<and> trace (snd (real_pos_update c obj val st)) = trace st))"
proof -
  define cache where "cache = dict_setitem (real_cur_pos st) obj val"
  define st1 where "st1 = st\<lparr>real_cur_pos := cache\<rparr>"
  have len: "length cache = length (real_positioners st)"
    using keys obj keys_dict_setitem [of obj "real_cur_pos st" val]
    by (metis cache_def length_map)
  have rp: "real_position st1 = Inr (map snd cache)"
    using len by (simp add: real_position_def st1_def)
  have upd: "real_pos_update c obj val st =
      (case update_position c st1 of (r, st2) \<Rightarrow>
         (case r of Inl e \<Rightarrow> if is_DisconnectedError e then (Inr (), st2) else (Inl e, st2)
                  | Inr calc \<Rightarrow> (Inr (), st2)))"
    by (simp add: real_pos_update_def st1_def cache_def Let_def)
  show ?thesis
  proof (cases "None \<in> set (map snd cache)")
    case True
    then have "update_position c st1 = (Inl DisconnectedError, st1)"
      using rp by (simp add: update_position_def)
    with True upd show ?thesis
      by (simp add: st1_def cache_def [symmetric])
  next
    case False
    show ?thesis
    proof (cases "inverse c (map snd cache)")
      case (Inl x)
      with False rp have "update_position c st1 = (Inl (Raised x), st1)"
        by (simp add: update_position_def)
      with False Inl upd show ?thesis
        by (cases x) (simp_all add: st1_def cache_def [symmetric])
    next
      case (Inr p)
      with False rp have "update_position c st1 = (Inr p, set_position p st1)"
        by (simp add: update_position_def)
      with False Inr upd show ?thesis
        by (simp add: st1_def set_position_def cache_def [symmetric])
    qed
  qed
qed


lemma real_positioners_update_position [simp]:
  "real_positioners (snd (update_position c st)) = real_positioners st"
  by (simp add: update_position_def set_position_def split: sum.splits)

lemma real_positioners_real_pos_update [simp]:
  "real_positioners (snd (real_pos_update c obj val st)) = real_positioners st"
proof -
  define st1 where "st1 = st\<lparr>real_cur_pos := dict_setitem (real_cur_pos st) obj val\<rparr>"
  have "snd (real_pos_update c obj val st) = snd (update_position c st1)"
    by (simp add: real_pos_update_def st1_def Let_def case_prod_beta split: sum.splits)
  then show ?thesis by (simp add: st1_def)
qed

lemma readback_notifications_keep_keys:
  "map fst (real_cur_pos st) = real_positioners st
     \<Longrightarrow> set (map fst ns) \<subseteq> set (real_positioners st)
     \<Longrightarrow> map fst (real_cur_pos (readback_notifications c ns st)) = real_positioners st
         \<and> real_positioners (readback_notifications c ns st) = real_positioners st"
proof (induction ns arbitrary: st)
  case Nil
  then show ?case by simp
next
  case (Cons n ns)
  obtain obj val where n: "n = (obj, val)" by (cases n)
  define st1 where "st1 = snd (real_pos_update c obj val st)"
  have obj: "obj \<in> set (real_positioners st)"
    using Cons.prems(2) n by simp
  have "real_cur_pos st1 = dict_setitem (real_cur_pos st) obj val"
    using real_pos_update_step [OF Cons.prems(1) obj, of c val] by (simp add: st1_def)
  then have keys: "map fst (real_cur_pos st1) = real_positioners st1"
    using Cons.prems(1) obj by (simp add: keys_dict_setitem st1_def)
  have same: "real_positioners st1 = real_positioners st"
    by (simp add: st1_def)
  have "map fst (real_cur_pos (readback_notifications c ns st1)) = real_positioners st1
         \<and> real_positioners (readback_notifications c ns st1) = real_positioners st1"
    using keys Cons.prems(2) same by (intro Cons.IH) simp_all
  then show ?case
    using same n by (simp add: st1_def)
qed

text \<open>
  C7. After any sequence of readback notifications from the real axes, the next
  notification stores the reported scalar in the cache. If an entry of the cache is then
  still unknown, the callback returns normally (the DisconnectedError is caught) and
  publishes nothing. If the cache is then full, the callback publishes exactly one
  readback-changed event, carrying what \<^verbatim>\<open>inverse\<close> computes from the full cache.
  When \<^verbatim>\<open>inverse\<close> raises, nothing is published: a DisconnectedError that it
  raises is caught like the callback's own and the callback returns normally, any other
  exception is raised.
\<close>

theorem readback_published_only_from_full_cache:
  assumes keys: "map fst (real_cur_pos st) = real_positioners st"
    and earlier: "set (map fst ns) \<subseteq> set (real_positioners st)"
    and obj: "obj \<in> set (real_positioners st)"
  shows "(let before = readback_notifications c ns st;
              (r, after) = real_pos_update c obj val before;
              cache = dict_setitem (real_cur_pos before) obj val
          in real_cur_pos after = cache
             \<and> (if None \<in> set (map snd cache)
                then r = Inr () \<and> trace after = trace before
                else (case inverse c (map snd cache) of
                        Inr p \<Rightarrow> r = Inr () \<and> trace after = trace before @ [ReadbackChanged p]
                      | Inl x \<Rightarrow> r = (if x = ExnDisconnected then Inr () else Inl (Raised x))
                                 \<and> trace after = trace before)))"
proof -
  define before where "before = readback_notifications c ns st"
  have inv: "map fst (real_cur_pos before) = real_positioners before"
    "obj \<in> set (real_positioners before)"
    using readback_notifications_keep_keys [OF keys earlier, of c] obj by (simp_all add: before_def)
  show ?thesis
    using real_pos_update_step [OF inv, of c val]
    unfolding before_def [symmetric] Let_def case_prod_beta by simp
qed

theorem readback_published_only_from_full_cache_witness:
  "real_pos_update pseudo1x2 ''A'' (Some 2) ab_idle
     = (Inr (), ab_idle\<lparr>real_cur_pos := [(''A'', Some 2), (''B'', None)]\<rparr>)
   \<and> real_pos_update pseudo1x2 ''B'' (Some 3)
       (readback_notifications pseudo1x2 [(''A'', Some 2)] ab_idle)
     = (Inr (), ab_idle\<lparr>real_cur_pos := [(''A'', Some 2), (''B'', Some 3)],
                        cur_position := Some [- 2], trace := [ReadbackChanged [- 2]]\<rparr>)"
proof -
  have keys: "map fst (real_cur_pos ab_idle) = real_positioners ab_idle"
    by (simp add: ab_idle_def)
  have a: "set (map fst [(''A'', Some (2 :: real))]) \<subseteq> set (real_positioners ab_idle)"
    and b: "''B'' \<in> set (real_positioners ab_idle)"
    by (simp_all add: ab_idle_def)
  show ?thesis
    using readback_published_only_from_full_cache [OF keys a b, of pseudo1x2 "Some 3"]
    by (simp add: real_pos_update_def update_position_def real_position_def set_position_def
        pseudo1x2_def ab_idle_def)
qed

text \<open>
  A DisconnectedError that \<^verbatim>\<open>inverse\<close> raises on a full cache is caught as well: the
  callback returns normally and publishes nothing. Any other exception of \<^verbatim>\<open>inverse\<close>
  leaves the callback.
\<close>

lemma readback_catches_disconnected_inverse:
  "real_pos_update (pseudo1x2\<lparr>inverse := (\<lambda>rp. Inl ExnDisconnected)\<rparr>) ''B'' (Some 3)
       (ab_idle\<lparr>real_cur_pos := [(''A'', Some 2), (''B'', None)]\<rparr>)
     = (Inr (), ab_idle\<lparr>real_cur_pos := [(''A'', Some 2), (''B'', Some 3)]\<rparr>)
   \<and> fst (real_pos_update (pseudo1x2\<lparr>inverse := (\<lambda>rp. Inl (Exn ''ValueError''))\<rparr>) ''B'' (Some 3)
       (ab_idle\<lparr>real_cur_pos := [(''A'', Some 2), (''B'', None)]\<rparr>))
     = Inl (Raised (Exn ''ValueError''))"
  by (simp add: real_pos_update_def update_position_def real_position_def pseudo1x2_def ab_idle_def)

subsection \<open>Stop\<close>

lemma stop_reals_trace:
  "trace (stop_reals c rs st) = trace st @ concat (map (stop_events c) rs)"
  by (induction rs arbitrary: st) (auto simp: stop_events_def split: option.splits)

lemma stop_reals_move_queue [simp]:
  "move_queue (stop_reals c rs st) = move_queue st"
  by (induction rs arbitrary: st) (auto split: option.splits)

lemma move_next_empty_queue:
  "move_queue st = []
     \<Longrightarrow> move_next c now st
         = done_moving (pending_status st = [] \<or> snd (last (pending_status st))) st"
  using move_next.simps [of c now st] by auto

lemma empty_queue_requests_nothing:
  "move_queue st = []
     \<Longrightarrow> filter is_request (trace (sequential_completions c cs st)) = filter is_request (trace st)"
proof (induction cs arbitrary: st)
  case Nil
  then show ?case by simp
next
  case (Cons x cs)
  obtain success now where x: "x = (success, now)" by (cases x)
  show ?case
  proof (cases "in_flight st")
    case None
    then show ?thesis by (simp add: x)
  next
    case (Some r)
    define st1 where "st1 = status_finished r success st"
    define st2 where "st2 = move_next c now st1"
    have q1: "move_queue st1 = []"
      using Cons.prems by (simp add: st1_def status_finished_def)
    then have st2: "st2 = done_moving (pending_status st1 = [] \<or> snd (last (pending_status st1))) st1"
      by (simp add: st2_def move_next_empty_queue)
    then have q2: "move_queue st2 = []"
      using q1 by (simp add: done_moving_def)
    have tr: "filter is_request (trace st2) = filter is_request (trace st)"
      using st2 by (simp add: st1_def status_finished_def)
    have "sequential_completions c (x # cs) st = sequential_completions c cs st2"
      using Some x by (simp add: st1_def st2_def)
    with Cons.IH [OF q2] tr show ?thesis by simp
  qed
qed

lemma filter_request_stop_events [simp]:
  "filter is_request (concat (map (stop_events c) rs)) = []"
  by (induction rs) (auto simp: stop_events_def split: option.splits)

text \<open>
  C8. \<^verbatim>\<open>stop\<close> never raises; it leaves the move queue empty; between the state it
  was called in and the base class's stop it calls the stop of every real positioner, in
  order, and an exception of one of them is logged and does not keep the next from being
  stopped; and whatever completions arrive afterwards, no further move is requested from
  a real positioner.
\<close>

theorem stop_discards_queue_and_stops_all:
  "fst (stop c st) = Inr ()
   \<and> move_queue (snd (stop c st)) = []
   \<and> trace (snd (stop c st))
       = trace st @ concat (map (stop_events c) (real_positioners st)) @ [BaseStop]
   \<and> (\<forall>cs. filter is_request (trace (sequential_completions c cs (snd (stop c st))))
             = filter is_request (trace st))"
proof -
  define st' where "st' = snd (stop c st)"
  have q: "move_queue st' = []"
    by (simp add: st'_def stop_def base_stop_def Let_def)
  have tr: "trace st' = trace st @ concat (map (stop_events c) (real_positioners st)) @ [BaseStop]"
    by (simp add: st'_def stop_def base_stop_def stop_reals_trace Let_def)
  have "filter is_request (trace (sequential_completions c cs st')) = filter is_request (trace st)" for cs
    using empty_queue_requests_nothing [OF q, of c cs] tr by simp
  with q tr show ?thesis
    unfolding st'_def by (simp add: stop_def Let_def)
qed

text \<open>
  The queue is emptied before the first real positioner is stopped: a completion that is
  processed part way through the loop requests no move either.
\<close>

lemma completion_during_stop_requests_nothing:
  "filter is_request
     (trace (sequential_completions c cs (stop_reals c rs (st\<lparr>move_queue := []\<rparr>))))
     = filter is_request (trace st)"
proof -
  have "move_queue (stop_reals c rs (st\<lparr>move_queue := []\<rparr>)) = []" by simp
  from empty_queue_requests_nothing [OF this, of c cs] show ?thesis
    by (simp add: stop_reals_trace)
qed

theorem stop_discards_queue_and_stops_all_witness:
  "move_queue (sequential_move pseudo1x2 [10, 20] None 0 0 ab_idle) = [(''B'', 20)]
   \<and> fst (stop pseudo1x2_stop_raises (sequential_move pseudo1x2 [10, 20] None 0 0 ab_idle)) = Inr ()
   \<and> move_queue (snd (stop pseudo1x2_stop_raises (sequential_move pseudo1x2 [10, 20] None 0 0 ab_idle))) = []
   \<and> trace (sequential_completions pseudo1x2_stop_raises [(True, 1)]
              (snd (stop pseudo1x2_stop_raises (sequential_move pseudo1x2 [10, 20] None 0 0 ab_idle))))
       = [MoveRequested ''A'' 10 None, StopCalled ''A'', StopFailureLogged ''A'' (Exn ''RuntimeError''),
          StopCalled ''B'', BaseStop, MoveFinished ''A'' True, DoneMoving True]"
proof -
  have queued: "move_queue (sequential_move pseudo1x2 [10, 20] None 0 0 ab_idle) = [(''B'', 20)]"
    by (simp add: sequential_move_def move_next.simps pseudo1x2_def ab_idle_def)
  have after: "trace (sequential_completions pseudo1x2_stop_raises [(True, 1)]
              (snd (stop pseudo1x2_stop_raises (sequential_move pseudo1x2 [10, 20] None 0 0 ab_idle))))
       = [MoveRequested ''A'' 10 None, StopCalled ''A'', StopFailureLogged ''A'' (Exn ''RuntimeError''),
          StopCalled ''B'', BaseStop, MoveFinished ''A'' True, DoneMoving True]"
    by (simp add: stop_def base_stop_def sequential_move_def move_next.simps done_moving_def
        in_flight_def status_finished_def pseudo1x2_stop_raises_def pseudo1x2_def ab_idle_def)
  from stop_discards_queue_and_stops_all
         [of pseudo1x2_stop_raises "sequential_move pseudo1x2 [10, 20] None 0 0 ab_idle"]
  have "fst (stop pseudo1x2_stop_raises (sequential_move pseudo1x2 [10, 20] None 0 0 ab_idle)) = Inr ()"
    and "move_queue (snd (stop pseudo1x2_stop_raises (sequential_move pseudo1x2 [10, 20] None 0 0 ab_idle))) = []"
    by blast+
  with queued after show ?thesis by blast
qed

subsection \<open>Single-axis moves\<close>


lemma position_set_target [simp]: "position c (set_target i t st) = position c st"
  by (simp add: position_def real_position_def set_target_def Let_def)

lemma PseudoSingle_target_set_target [simp]:
  "PseudoSingle_target c (set_target i t st) p = PseudoSingle_target c st p"
  by (simp add: PseudoSingle_target_def PseudoSingle_position_def split: option.splits)

lemma pseudo_positioners_set_target:
  "pseudo_positioners (set_target i t st)
     = (pseudo_positioners st)[i := (pseudo_positioners st ! i)\<lparr>s_target := t\<rparr>]"
  by (simp add: set_target_def)





lemma pseudo_positioners_done_moving [simp]:
  "pseudo_positioners (done_moving b st) = pseudo_positioners st"
  by (simp add: done_moving_def)

lemma pseudo_positioners_move_next [simp]:
  "pseudo_positioners (move_next c now st) = pseudo_positioners st"
  using extends_move_next [of st c now] by (simp add: extends_def)

lemma pseudo_positioners_real_finished [simp]:
  "pseudo_positioners (real_finished r st) = pseudo_positioners st"
  by (simp add: real_finished_def Let_def)

lemma pseudo_positioners_concurrent_dispatch [simp]:
  "pseudo_positioners (concurrent_dispatch c timeout zs st) = pseudo_positioners st"
proof (induction zs arbitrary: st)
  case Nil
  show ?case by simp
next
  case (Cons z zs)
  obtain r v where z: "z = (r, v)" by (cases z)
  show ?case
    by (simp add: z Cons.IH Let_def split: option.splits)
qed

lemma pseudo_positioners_setup_move [simp]:
  "pseudo_positioners (snd (setup_move c p timeout t0 now st)) = pseudo_positioners st"
  by (simp add: setup_move_def sequential_move_def concurrent_move_def Let_def split: sum.splits)

lemma pseudo_positioners_move [simp]:
  "pseudo_positioners (snd (move c p timeout t0 now st)) = pseudo_positioners st"
  by (simp add: move_def split: sum.splits)

lemma pseudo_positioners_move_single [simp]:
  "pseudo_positioners (snd (move_single c a s timeout t0 now st)) = pseudo_positioners st"
  by (simp add: move_single_def Let_def split: sum.splits)

text \<open>
  C10. \<^verbatim>\<open>PseudoSingle.move(pos)\<close> records \<open>pos\<close> as the axis's commanded target
  before it calls the group move. Whatever the outcome \<open>r\<close> of the call, an exception
  of the group move in particular, the axis's \<^verbatim>\<open>_target\<close> is \<open>pos\<close> afterwards and
  its \<^verbatim>\<open>target\<close> returns \<open>pos\<close>; after \<^verbatim>\<open>sync\<close> its \<^verbatim>\<open>target\<close> is its
  readback again.
\<close>

theorem commanded_target_survives_failed_move:
  assumes i: "i < length (pseudo_positioners st)"
    and outcome: "PseudoSingle_move c i pos timeout t0 now st = (r, st')"
  shows "s_target (pseudo_positioners st' ! i) = Some pos
       \<and> PseudoSingle_target c st' (pseudo_positioners st' ! i) = Inr pos
       \<and> PseudoSingle_target c (PseudoSingle_sync i st') (pseudo_positioners (PseudoSingle_sync i st') ! i)
           = PseudoSingle_position c st' (pseudo_positioners st' ! i)"
proof -
  have "st' = snd (PseudoSingle_move c i pos timeout t0 now st)"
    using outcome by simp
  then have ps: "pseudo_positioners st' = pseudo_positioners (set_target i (Some pos) st)"
    using i by (simp add: PseudoSingle_move_def Let_def)
  then have kept: "s_target (pseudo_positioners st' ! i) = Some pos"
    using i by (simp add: pseudo_positioners_set_target)
  then have tg: "PseudoSingle_target c st' (pseudo_positioners st' ! i) = Inr pos"
    by (simp add: PseudoSingle_target_def)
  have len: "i < length (pseudo_positioners st')"
    using ps i by (simp add: pseudo_positioners_set_target)
  have "PseudoSingle_target c (PseudoSingle_sync i st') (pseudo_positioners (PseudoSingle_sync i st') ! i)
      = PseudoSingle_position c st' ((pseudo_positioners st' ! i)\<lparr>s_target := None\<rparr>)"
    using len
    by (simp add: PseudoSingle_sync_def pseudo_positioners_set_target PseudoSingle_target_def
        PseudoSingle_position_def)
  also have "\<dots> = PseudoSingle_position c st' (pseudo_positioners st' ! i)"
    by (simp add: PseudoSingle_position_def split: sum.splits)
  finally show ?thesis
    using kept tg by simp
qed

theorem commanded_target_survives_failed_move_witness:
  "PseudoSingle_move pseudo1x2 0 11 None 0 0 ab_idle
     = (Inl (OutsidePseudoLimits ''pseudo1'' (- 10) 11 10), set_target 0 (Some 11) ab_idle)
   \<and> PseudoSingle_target pseudo1x2 (set_target 0 (Some 11) ab_idle)
        (pseudo_positioners (set_target 0 (Some 11) ab_idle) ! 0) = Inr 11"
proof -
  have i: "0 < length (pseudo_positioners ab_idle)"
    by (simp add: ab_idle_def)
  have run: "PseudoSingle_move pseudo1x2 0 11 None 0 0 ab_idle
     = (Inl (OutsidePseudoLimits ''pseudo1'' (- 10) 11 10), set_target 0 (Some 11) ab_idle)"
    by (simp add: PseudoSingle_move_def move_single_def target_def PseudoSingle_target_def
        move_def check_value_def set_target_def ab_idle_def)
  from commanded_target_survives_failed_move [OF i run] run
  show ?thesis by simp
qed

end
